theory Spec2Isabelle
  imports Complex_Main "HOL-Library.Word"
begin

section \<open>JavaScript values\<close>

subsection \<open>Numbers\<close>

text \<open>
  A JavaScript number is an IEEE 754 double: a finite value, one of the two infinities or
  NaN. A finite double is held as the rational it denotes. The two zeros are one value
  here: the sign of a zero shows in the sign of \<open>x / 0\<close>, and the program divides by the
  literal 40 alone.

  Every arithmetic operation of the language returns the double nearest to the exact
  result, ties going to the even significand. \<open>round_double\<close> is that rounding: with
  \<open>2 ^ e \<le> \<bar>x\<bar> < 2 ^ (e + 1)\<close>, the doubles around \<open>x\<close> are the multiples of
  \<open>2 ^ (e - 52)\<close> (of \<open>2 ^ - 1074\<close> below the normal range), and a result of
  \<open>2 ^ 1024\<close> or more is infinite.
\<close>

datatype number = Finite rat | PosInfinity | NegInfinity | NaN

text \<open>
  \<open>log2_floor a\<close> is the exponent \<open>e\<close> with \<open>2 ^ e \<le> a < 2 ^ (e + 1)\<close>, for
  \<open>a > 0\<close>: \<open>a\<close> is halved or doubled until it lies between 1 and 2.
\<close>

function log2_floor :: "rat \<Rightarrow> int" where
  "log2_floor a =
     (if 2 \<le> a then log2_floor (a / 2) + 1
      else if 0 < a \<and> a < 1 then log2_floor (a * 2) - 1
      else 0)"
  by pat_completeness auto
termination
proof (relation "measure (\<lambda>a. nat \<lfloor>a\<rfloor> + 2 * nat \<lceil>1 / a\<rceil>)")
  show "wf (measure (\<lambda>a. nat \<lfloor>a\<rfloor> + 2 * nat \<lceil>1 / a\<rceil>))" by simp
next
  fix a :: rat
  assume a: "2 \<le> a"
  have f: "\<lfloor>a / 2\<rfloor> < \<lfloor>a\<rfloor>"
  proof -
    have "a / 2 < of_int \<lfloor>a\<rfloor>"
    proof -
      have "a < of_int \<lfloor>a\<rfloor> + 1" by linarith
      moreover have "2 \<le> \<lfloor>a\<rfloor>" using a by linarith
      then have "(2::rat) \<le> of_int \<lfloor>a\<rfloor>" by (metis of_int_le_iff of_int_numeral)
      ultimately show ?thesis by linarith
    qed
    then show ?thesis by (simp add: floor_less_iff)
  qed
  have c1: "\<lceil>1 / a\<rceil> = 1" using a by (simp add: ceiling_eq_iff)
  have c2: "\<lceil>1 / (a / 2)\<rceil> = 1" using a by (simp add: ceiling_eq_iff)
  have "0 \<le> \<lfloor>a / 2\<rfloor>" using a by simp
  with f c1 c2 a show "(a / 2, a) \<in> measure (\<lambda>a. nat \<lfloor>a\<rfloor> + 2 * nat \<lceil>1 / a\<rceil>)"
    by simp
next
  fix a :: rat
  assume "\<not> 2 \<le> a" and a: "0 < a \<and> a < 1"
  have fa: "\<lfloor>a\<rfloor> = 0" using a by (simp add: floor_eq_iff)
  have f2: "\<lfloor>a * 2\<rfloor> \<le> 1" using a by (simp add: floor_le_iff)
  have f0: "0 \<le> \<lfloor>a * 2\<rfloor>" using a by simp
  have y: "1 < 1 / a" using a by simp
  have hl: "y / 2 \<le> c - 1" if "2 \<le> c" and "y \<le> c" for c y :: rat
    using that by linarith
  have c: "\<lceil>1 / (a * 2)\<rceil> < \<lceil>1 / a\<rceil>"
  proof -
    have "2 \<le> \<lceil>1 / a\<rceil>" using y by (simp add: le_ceiling_iff)
    then have "(2::rat) \<le> of_int \<lceil>1 / a\<rceil>" by (metis of_int_le_iff of_int_numeral)
    moreover have "1 / a \<le> of_int \<lceil>1 / a\<rceil>" by simp
    ultimately have "1 / a / 2 \<le> of_int \<lceil>1 / a\<rceil> - 1" by (rule hl)
    then have "1 / (a * 2) \<le> of_int (\<lceil>1 / a\<rceil> - 1)" by simp
    then have "\<lceil>1 / (a * 2)\<rceil> \<le> \<lceil>1 / a\<rceil> - 1" by (simp only: ceiling_le_iff)
    then show ?thesis by simp
  qed
  have c0: "0 < \<lceil>1 / (a * 2)\<rceil>" using a by simp
  have n1: "nat \<lfloor>a * 2\<rfloor> \<le> 1" using f2 by linarith
  have n2: "nat \<lceil>1 / (a * 2)\<rceil> < nat \<lceil>1 / a\<rceil>" using c c0 by linarith
  have n3: "nat \<lfloor>a\<rfloor> = 0" using fa by simp
  from n1 n2 n3
  show "(a * 2, a) \<in> measure (\<lambda>a. nat \<lfloor>a\<rfloor> + 2 * nat \<lceil>1 / a\<rceil>)"
    unfolding in_measure by linarith
qed

declare log2_floor.simps [simp del]

text \<open>The integer nearest to \<open>y\<close>; half-way between two integers, the even one.\<close>

definition round_half_even :: "rat \<Rightarrow> int" where
  "round_half_even y =
     (let f = \<lfloor>y\<rfloor>; d = y - of_int f
      in if d < 1 / 2 then f else if 1 / 2 < d then f + 1 else if even f then f else f + 1)"

definition round_double :: "rat \<Rightarrow> number" where
  "round_double x =
     (if x = 0 then Finite 0
      else
        let e = log2_floor \<bar>x\<bar>;
            q = max e (- 1022) - 52;
            m = round_half_even (\<bar>x\<bar> / 2 powi q);
            r = of_int m * 2 powi q
        in if 2 ^ 1024 \<le> r then (if 0 < x then PosInfinity else NegInfinity)
           else Finite (sgn x * r))"

text \<open>The sign of a number that is not NaN, a zero counting as positive.\<close>

fun positive :: "number \<Rightarrow> bool" where
  "positive (Finite x) = (0 \<le> x)"
| "positive PosInfinity = True"
| "positive NegInfinity = False"
| "positive NaN = False"

text \<open>The operators \<^verbatim>\<open>*\<close> and \<^verbatim>\<open>/\<close> and \<^verbatim>\<open>Math.min\<close> of two arguments.\<close>

fun js_mul :: "number \<Rightarrow> number \<Rightarrow> number" where
  "js_mul NaN b = NaN"
| "js_mul a NaN = NaN"
| "js_mul (Finite x) (Finite y) = round_double (x * y)"
| "js_mul a b =
     (if a = Finite 0 \<or> b = Finite 0 then NaN
      else if positive a = positive b then PosInfinity else NegInfinity)"

fun js_div :: "number \<Rightarrow> number \<Rightarrow> number" where
  "js_div NaN b = NaN"
| "js_div a NaN = NaN"
| "js_div (Finite x) (Finite y) =
     (if y = 0 then (if x = 0 then NaN else if 0 < x then PosInfinity else NegInfinity)
      else round_double (x / y))"
| "js_div (Finite x) b = Finite 0"
| "js_div a (Finite y) = (if positive a = (0 \<le> y) then PosInfinity else NegInfinity)"
| "js_div a b = NaN"

fun js_min :: "number \<Rightarrow> number \<Rightarrow> number" where
  "js_min NaN b = NaN"
| "js_min a NaN = NaN"
| "js_min NegInfinity b = NegInfinity"
| "js_min a NegInfinity = NegInfinity"
| "js_min PosInfinity b = b"
| "js_min a PosInfinity = a"
| "js_min (Finite x) (Finite y) = Finite (min x y)"

subsection \<open>JSON payloads\<close>

text \<open>
  The payload of an \<^verbatim>\<open>XMLHttpRequest\<close> with \<^verbatim>\<open>responseType = 'json'\<close> is a
  parsed JSON value, or \<^verbatim>\<open>null\<close> when the body is empty or does not parse. A
  number of the payload is a finite double (a literal beyond the range of the doubles is
  left out).
\<close>

datatype json =
    JNull
  | JBool bool
  | JNum rat
  | JStr string
  | JArr "json list"
  | JObj "(string \<times> json) list"

text \<open>\<^verbatim>\<open>ToBoolean\<close> on a JSON value: what \<^verbatim>\<open>if (!data)\<close> tests.\<close>

fun truthy :: "json \<Rightarrow> bool" where
  "truthy JNull = False"
| "truthy (JBool b) = b"
| "truthy (JNum n) = (n \<noteq> 0)"
| "truthy (JStr s) = (s \<noteq> [])"
| "truthy (JArr xs) = True"
| "truthy (JObj kvs) = True"

section \<open>TSDBWatch: the poll scheduler\<close>

text \<open>
  One record holds the fields of a \<^verbatim>\<open>TSDBWatch\<close> object (\<^verbatim>\<open>refresh_\<close>,
  \<^verbatim>\<open>delay_\<close>, \<^verbatim>\<open>timer_\<close>; the trailing underscore of the source's private
  names is dropped throughout, since an Isabelle name cannot end in one) together with
  the part of the browser the object talks to: the pending timeouts of \<^verbatim>\<open>window\<close>
  (handle and the delay passed, in milliseconds), the next timer handle (handles are
  positive integers), the number of outstanding requests, and three logs: the arguments
  of every call of \<^verbatim>\<open>callback_\<close>, every delay passed to \<^verbatim>\<open>setTimeout\<close>, and the
  lines written by \<^verbatim>\<open>console.log\<close>. The field \<^verbatim>\<open>url_\<close> is not modelled: nothing
  below reads it.
\<close>

record watch =
  refresh :: number
  delay :: number
  timer :: "nat option"
  timeouts :: "(nat \<times> number) list"
  next_handle :: nat
  requests :: nat
  calls :: "json list"
  armed :: "number list"
  console :: "string list"

definition MIN_DELAY :: number where "MIN_DELAY = Finite (1 / 2)"
definition MAX_DELAY :: number where "MAX_DELAY = Finite 32"
definition DELAY_MULT :: number where "DELAY_MULT = Finite 2"

text \<open>\<^verbatim>\<open>if (this.timer_)\<close>: \<^verbatim>\<open>null\<close>, \<^verbatim>\<open>undefined\<close> and 0 are falsy.\<close>

fun timer_set :: "nat option \<Rightarrow> bool" where
  "timer_set None = False"
| "timer_set (Some h) = (h \<noteq> 0)"

definition setTimeout :: "number \<Rightarrow> watch \<Rightarrow> nat \<times> watch" where
  "setTimeout ms w =
     (next_handle w,
      w\<lparr>timeouts := timeouts w @ [(next_handle w, ms)],
        next_handle := next_handle w + 1,
        armed := armed w @ [ms]\<rparr>)"

definition clearTimeout :: "nat \<Rightarrow> watch \<Rightarrow> watch" where
  "clearTimeout h w = w\<lparr>timeouts := filter (\<lambda>t. fst t \<noteq> h) (timeouts w)\<rparr>"

definition destroy :: "watch \<Rightarrow> watch" where
  "destroy w =
     (if timer_set (timer w) then clearTimeout (the (timer w)) w else w)"

definition sendRequest :: "watch \<Rightarrow> watch" where
  "sendRequest w = w\<lparr>timer := None, requests := requests w + 1\<rparr>"

definition retry :: "watch \<Rightarrow> watch" where
  "retry w =
     (if timer_set (timer w) then w\<lparr>console := console w @ [''Duplicate retry call'']\<rparr>
      else
        let (h, w1) = setTimeout (js_mul (delay w) (Finite 1000)) w;
            w2 = w1\<lparr>timer := Some h\<rparr>
        in w2\<lparr>delay := js_min (js_mul (delay w2) DELAY_MULT) MAX_DELAY\<rparr>)"

text \<open>
  The callback is the owner's function; the watch knows nothing of it. How a call of it
  completes, by returning or by throwing, is given with the load event. When it throws,
  the exception leaves \<open>onLoad\<close> at the call: the delay has been reset and the callback
  has been called, and the statements after the call are not reached.
\<close>

datatype completion = Returns | Throws

definition onLoad :: "json \<Rightarrow> completion \<Rightarrow> watch \<Rightarrow> completion \<times> watch" where
  "onLoad data c w =
     (if \<not> truthy data then (Returns, retry w)
      else
        let w1 = w\<lparr>delay := MIN_DELAY\<rparr>;
            w2 = w1\<lparr>calls := calls w1 @ [data]\<rparr>
        in case c of
             Throws \<Rightarrow> (Throws, w2)
           | Returns \<Rightarrow>
               let (h, w3) = setTimeout (js_mul (refresh w2) (Finite 1000)) w2
               in (Returns, w3\<lparr>timer := Some h\<rparr>))"

text \<open>
  The constructor: a fresh page has no timeout pending and no request outstanding.
  Building \<^verbatim>\<open>url_\<close> can throw (\<^verbatim>\<open>encodeURIComponent\<close> on an ill-formed
  expression, see the last section); then no watch exists. What follows is about the
  watches that were constructed.
\<close>

definition TSDBWatch :: "number \<Rightarrow> watch" where
  "TSDBWatch windowSeconds =
     sendRequest
       \<lparr>refresh = js_div windowSeconds (Finite 40), delay = MIN_DELAY, timer = None,
        timeouts = [], next_handle = 1, requests = 0,
        calls = [], armed = [], console = []\<rparr>"

subsection \<open>What the browser and the owner can do to a watch\<close>

text \<open>
  A request ends with exactly one of \<^verbatim>\<open>load\<close>, \<^verbatim>\<open>error\<close> and \<^verbatim>\<open>timeout\<close>;
  a pending timeout fires once and is then gone; the owner may call \<open>destroy\<close> at any
  moment. An event that the browser cannot deliver in the current state is \<open>None\<close>. An
  exception that leaves a listener is reported by the browser and changes nothing else.
\<close>

datatype event = Load json completion | Error | Timeout | Fire nat | Destroy

fun step :: "event \<Rightarrow> watch \<Rightarrow> watch option" where
  "step (Load data c) w =
     (if requests w = 0 then None
      else Some (snd (onLoad data c (w\<lparr>requests := requests w - 1\<rparr>))))"
| "step Error w =
     (if requests w = 0 then None
      else Some (retry (w\<lparr>requests := requests w - 1\<rparr>)))"
| "step Timeout w =
     (if requests w = 0 then None
      else Some (retry (w\<lparr>requests := requests w - 1\<rparr>)))"
| "step (Fire h) w =
     (if h \<in> fst ` set (timeouts w)
      then Some (sendRequest (clearTimeout h w))
      else None)"
| "step Destroy w = Some (destroy w)"

fun run :: "event list \<Rightarrow> watch \<Rightarrow> watch option" where
  "run [] w = Some w"
| "run (e # es) w = (case step e w of None \<Rightarrow> None | Some w' \<Rightarrow> run es w')"

subsection \<open>Failure events and failure cycles\<close>

text \<open>
  The three ways a poll fails: a transport error, a timeout, and a load whose payload is
  falsy. \<open>failures fs h\<close> is the run in which each failure of \<open>fs\<close> is followed by the
  firing of the retry timer it armed; \<open>h\<close> is the handle of the first of these timers.
\<close>

fun failure :: "event \<Rightarrow> bool" where
  "failure (Load data c) = (\<not> truthy data)"
| "failure Error = True"
| "failure Timeout = True"
| "failure (Fire h) = False"
| "failure Destroy = False"

fun failures :: "event list \<Rightarrow> nat \<Rightarrow> event list" where
  "failures [] h = []"
| "failures (f # fs) h = f # Fire h # failures fs (Suc h)"

text \<open>The delay after \<open>n\<close> further failures, starting from delay \<open>d\<close>.\<close>

fun backoff :: "nat \<Rightarrow> rat \<Rightarrow> rat" where
  "backoff 0 d = d"
| "backoff (Suc n) d = backoff n (min (d * 2) 32)"

text \<open>
  Two state predicates for the proofs. \<open>requesting\<close>: a request is outstanding and no
  timeout is pending. \<open>settled\<close>: the invariant of every state a watch on window
  \<open>ws\<close> can reach; either it is requesting, or no request is outstanding and the only
  timeout that can be pending is the one whose handle \<open>timer\<close> holds.
\<close>

definition requesting :: "watch \<Rightarrow> bool" where
  "requesting w \<longleftrightarrow> requests w = 1 \<and> timer w = None \<and> timeouts w = []"

definition settled :: "number \<Rightarrow> watch \<Rightarrow> bool" where
  "settled ws w \<longleftrightarrow>
     refresh w = js_div ws (Finite 40) \<and> 0 < next_handle w \<and>
     (if requests w = 0
      then timeouts w = [] \<or>
           (case timer w of None \<Rightarrow> False
            | Some h \<Rightarrow> h \<noteq> 0 \<and> h < next_handle w \<and> map fst (timeouts w) = [h])
      else requests w = 1 \<and> timeouts w = [] \<and> timer w = None)"

text \<open>\<open>stopped\<close>: nothing is outstanding, so nothing can happen to the watch any more.\<close>

definition stopped :: "watch \<Rightarrow> bool" where
  "stopped w \<longleftrightarrow> requests w = 0 \<and> timeouts w = []"

section \<open>Chart.drawChart_: series to table\<close>

text \<open>
  A series object of the response has a tag object and an array of
  \<^verbatim>\<open>[epochSeconds, value]\<close> pairs. The tag object is held as the list of its
  key/value pairs in the order \<^verbatim>\<open>for (key in ts.tags)\<close> visits them. A
  \<^verbatim>\<open>google.visualization.DataTable\<close> is its list of columns (type and label) and its
  list of rows; a cell is a \<^verbatim>\<open>Date\<close>, a number or \<^verbatim>\<open>null\<close>. A
  \<^verbatim>\<open>Date\<close> holds a time value, a whole number of milliseconds, or is invalid.
\<close>

record series =
  tags :: "(string \<times> string) list"
  timestamps_values :: "(rat \<times> rat) list"

datatype cell = Date int | InvalidDate | Number rat | Null

text \<open>
  \<^verbatim>\<open>new Date(value)\<close> on a number takes TimeClip of the value as its time value:
  no time value (an invalid date) when the number is not finite or beyond 8.64e15
  milliseconds, and otherwise the number without its fraction (ToIntegerOrInfinity, which
  rounds towards zero).
\<close>

definition ToIntegerOrInfinity :: "rat \<Rightarrow> int" where
  "ToIntegerOrInfinity t = (if 0 \<le> t then \<lfloor>t\<rfloor> else \<lceil>t\<rceil>)"

fun TimeClip :: "number \<Rightarrow> int option" where
  "TimeClip (Finite t) =
     (if 8640000000000000 < \<bar>t\<bar> then None else Some (ToIntegerOrInfinity t))"
| "TimeClip PosInfinity = None"
| "TimeClip NegInfinity = None"
| "TimeClip NaN = None"

definition new_Date :: "number \<Rightarrow> cell" where
  "new_Date v = (case TimeClip v of None \<Rightarrow> InvalidDate | Some tv \<Rightarrow> Date tv)"

record dataTable =
  columns :: "(string \<times> string) list"
  rows :: "cell list list"

definition DataTable :: dataTable where
  "DataTable = \<lparr>columns = [], rows = []\<rparr>"

definition addColumn :: "string \<Rightarrow> string \<Rightarrow> dataTable \<Rightarrow> dataTable" where
  "addColumn ty label t = t\<lparr>columns := columns t @ [(ty, label)]\<rparr>"

definition addRow :: "cell list \<Rightarrow> dataTable \<Rightarrow> dataTable" where
  "addRow row t = t\<lparr>rows := rows t @ [row]\<rparr>"

text \<open>\<^verbatim>\<open>xs.splice(i, n)\<close>: the array without the \<open>n\<close> elements from index \<open>i\<close>.\<close>

definition splice_arr :: "nat \<Rightarrow> nat \<Rightarrow> 'a list \<Rightarrow> 'a list" where
  "splice_arr i n xs = take i xs @ drop (i + n) xs"

text \<open>\<^verbatim>\<open>Array.prototype.join\<close> on strings.\<close>

fun join :: "string \<Rightarrow> string list \<Rightarrow> string" where
  "join sep [] = []"
| "join sep [x] = x"
| "join sep (x # y # ys) = x @ sep @ join sep (y # ys)"

text \<open>The loop over the tag object, pushing \<^verbatim>\<open>key + '=' + ts.tags[key]\<close>.\<close>

fun tags_loop :: "(string \<times> string) list \<Rightarrow> string list \<Rightarrow> string list" where
  "tags_loop [] acc = acc"
| "tags_loop ((key, v) # kvs) acc = tags_loop kvs (acc @ [key @ ''='' @ v])"

text \<open>
  The first loop runs \<open>i\<close> from \<^verbatim>\<open>data.length - 1\<close> down to 0; the first argument
  here is \<open>i + 1\<close>. An empty series is spliced out of \<open>data\<close>; any other series
  adds its column at once, that is, while the array is walked backwards.
\<close>

fun columns_loop :: "nat \<Rightarrow> series list \<times> dataTable \<Rightarrow> series list \<times> dataTable" where
  "columns_loop 0 (data, t) = (data, t)"
| "columns_loop (Suc i) (data, t) =
     (let ts = data ! i in
      if length (timestamps_values ts) = 0
      then columns_loop i (splice_arr i 1 data, t)
      else columns_loop i
             (data, addColumn ''number'' (join '','' (tags_loop (tags ts) [])) t))"

text \<open>\<^verbatim>\<open>for (var k = ...; k < n; k++) row.push(null)\<close>\<close>

function push_nulls :: "nat \<Rightarrow> nat \<Rightarrow> cell list \<Rightarrow> cell list" where
  "push_nulls k n row = (if k < n then push_nulls (k + 1) n (row @ [Null]) else row)"
  by pat_completeness auto
termination
  by (relation "measure (\<lambda>(k, n, row). n - k)") auto

declare push_nulls.simps [simp del]

text \<open>The loop over the samples of series \<open>i\<close>, one \<open>addRow\<close> per sample.\<close>

function samples_loop :: "nat \<Rightarrow> nat \<Rightarrow> series list \<Rightarrow> dataTable \<Rightarrow> dataTable" where
  "samples_loop j i data t =
     (let ts = data ! i in
      if j < length (timestamps_values ts)
      then
        let row = [new_Date (js_mul (Finite (fst (timestamps_values ts ! j))) (Finite 1000))];
            row = push_nulls 0 i row;
            row = row @ [Number (snd (timestamps_values ts ! j))];
            row = push_nulls (i + 1) (length data) row
        in samples_loop (j + 1) i data (addRow row t)
      else t)"
  by pat_completeness auto
termination
  by (relation "measure (\<lambda>(j, i, data, t). length (timestamps_values (data ! i)) - j)") auto

declare samples_loop.simps [simp del]

text \<open>The second loop, over the series left in \<open>data\<close>.\<close>

function rows_loop :: "nat \<Rightarrow> series list \<Rightarrow> dataTable \<Rightarrow> dataTable" where
  "rows_loop i data t =
     (if i < length data then rows_loop (i + 1) data (samples_loop 0 i data t) else t)"
  by pat_completeness auto
termination
  by (relation "measure (\<lambda>(i, data, t). length data - i)") auto

declare rows_loop.simps [simp del]

text \<open>
  \<open>drawChart\<close> returns the array \<open>data\<close> as the call leaves it (the caller's array,
  which the splice changes in place) and the table handed to the chart. The chart
  options and the call of \<^verbatim>\<open>LineChart.draw\<close> are the rendering sink and are not
  modelled.
\<close>

definition drawChart :: "series list \<Rightarrow> series list \<times> dataTable" where
  "drawChart data =
     (let dataTable = addColumn ''date'' ''Timestamp'' DataTable;
          (data, dataTable) = columns_loop (length data) (data, dataTable);
          dataTable = rows_loop 0 data dataTable
      in (data, dataTable))"

text \<open>
  For the statements below: the row of one sample \<open>s\<close> of the series at index \<open>i\<close>
  among \<open>n\<close> series.
\<close>

definition sample_row :: "nat \<Rightarrow> nat \<Rightarrow> rat \<times> rat \<Rightarrow> cell list" where
  "sample_row i n s =
     new_Date (js_mul (Finite (fst s)) (Finite 1000)) #
       replicate i Null @ [Number (snd s)] @ replicate (n - Suc i) Null"

section \<open>The URL fragment: encodeURIComponent and decodeURIComponent\<close>

text \<open>
  \<open>Console\<close> writes \<^verbatim>\<open>encodeURIComponent(expr)\<close> to \<^verbatim>\<open>window.location.hash\<close> and
  reads the expression back with \<^verbatim>\<open>decodeURIComponent\<close>. Both are functions of the
  JavaScript platform, not of this repository; the definitions below follow their
  algorithms in ECMA-262 (Encode, Decode, CodePointAt, ParseHexOctet,
  UTF16SurrogatePairToCodePoint, UTF16EncodeCodePoint and the UTF-8 transformation). A
  JavaScript string is a sequence of 16-bit code units; code points and octets are
  natural numbers. The functions work on the rest of the string from the current index
  \<open>k\<close> on, instead of on the whole string and \<open>k\<close>.
\<close>

type_synonym code_unit = "16 word"

datatype error = URIError

definition unescapedSet :: "code_unit list" where
  "unescapedSet =
     map of_char
       (''ABCDEFGHIJKLMNOPQRSTUVWXYZabcdefghijklmnopqrstuvwxyz0123456789_'' @
        ''-.!~*'' @ [CHR 0x27] @ ''()'')"

definition percent :: code_unit where
  "percent = 0x25"

definition is_leading_surrogate :: "code_unit \<Rightarrow> bool" where
  "is_leading_surrogate c \<longleftrightarrow> 0xD800 \<le> unat c \<and> unat c \<le> 0xDBFF"

definition is_trailing_surrogate :: "code_unit \<Rightarrow> bool" where
  "is_trailing_surrogate c \<longleftrightarrow> 0xDC00 \<le> unat c \<and> unat c \<le> 0xDFFF"

definition UTF16SurrogatePairToCodePoint :: "code_unit \<Rightarrow> code_unit \<Rightarrow> nat" where
  "UTF16SurrogatePairToCodePoint lead trail =
     (unat lead - 0xD800) * 0x400 + (unat trail - 0xDC00) + 0x10000"

text \<open>
  CodePointAt at the head of the rest of the string: the code point, the number of code
  units it takes and whether it is an unpaired surrogate. The standard asserts that the
  position is inside the string; Encode never calls it on the empty rest.
\<close>

fun CodePointAt :: "code_unit list \<Rightarrow> nat \<times> nat \<times> bool" where
  "CodePointAt [] = (0, 0, True)"
| "CodePointAt (first # rest) =
     (if \<not> is_leading_surrogate first \<and> \<not> is_trailing_surrogate first
      then (unat first, 1, False)
      else if is_trailing_surrogate first \<or> rest = []
      then (unat first, 1, True)
      else if \<not> is_trailing_surrogate (hd rest)
      then (unat first, 1, True)
      else (UTF16SurrogatePairToCodePoint first (hd rest), 2, False))"

text \<open>The UTF-8 transformation of a code point, and one octet as \<^verbatim>\<open>%XX\<close>.\<close>

definition utf8 :: "nat \<Rightarrow> nat list" where
  "utf8 cp =
     (if cp < 0x80 then [cp]
      else if cp < 0x800 then [0xC0 + cp div 0x40, 0x80 + cp mod 0x40]
      else if cp < 0x10000
      then [0xE0 + cp div 0x1000, 0x80 + cp div 0x40 mod 0x40, 0x80 + cp mod 0x40]
      else [0xF0 + cp div 0x40000, 0x80 + cp div 0x1000 mod 0x40,
            0x80 + cp div 0x40 mod 0x40, 0x80 + cp mod 0x40])"

definition hex_digit :: "nat \<Rightarrow> code_unit" where
  "hex_digit d = of_char (''0123456789ABCDEF'' ! d)"

definition escape :: "nat \<Rightarrow> code_unit list" where
  "escape octet = [percent, hex_digit (octet div 16), hex_digit (octet mod 16)]"

text \<open>Appending to the result \<open>R\<close>, unless an exception was thrown.\<close>

fun bind_append :: "code_unit list \<Rightarrow> error + code_unit list \<Rightarrow> error + code_unit list" where
  "bind_append S (Inl e) = Inl e"
| "bind_append S (Inr R) = Inr (S @ R)"

function Encode :: "code_unit list \<Rightarrow> error + code_unit list" where
  "Encode [] = Inr []"
| "Encode (C # rest) =
     (if C \<in> set unescapedSet then bind_append [C] (Encode rest)
      else
        case CodePointAt (C # rest) of (cp, count, unpaired) \<Rightarrow>
          if unpaired then Inl URIError
          else bind_append (concat (map escape (utf8 cp))) (Encode (drop (count - 1) rest)))"
  by pat_completeness auto
termination
  by (relation "measure length") auto

definition encodeURIComponent :: "code_unit list \<Rightarrow> error + code_unit list" where
  "encodeURIComponent s = Encode s"

text \<open>ParseHexOctet reads two hexadecimal digits of either case.\<close>

definition hex_value :: "code_unit \<Rightarrow> nat option" where
  "hex_value c =
     (let n = unat c in
      if 0x30 \<le> n \<and> n \<le> 0x39 then Some (n - 0x30)
      else if 0x41 \<le> n \<and> n \<le> 0x46 then Some (n - 0x41 + 10)
      else if 0x61 \<le> n \<and> n \<le> 0x66 then Some (n - 0x61 + 10)
      else None)"

fun ParseHexOctet :: "code_unit list \<Rightarrow> nat option" where
  "ParseHexOctet (h # l # rest) =
     (case (hex_value h, hex_value l) of
        (Some a, Some b) \<Rightarrow> Some (16 * a + b)
      | _ \<Rightarrow> None)"
| "ParseHexOctet _ = None"

text \<open>The number of leading 1 bits of an octet (5 stands for more than four).\<close>

definition leading_ones :: "nat \<Rightarrow> nat" where
  "leading_ones B =
     (if B < 0x80 then 0 else if B < 0xC0 then 1 else if B < 0xE0 then 2
      else if B < 0xF0 then 3 else if B < 0xF8 then 4 else 5)"

text \<open>The inner loop of Decode: \<open>j\<close> more escapes \<^verbatim>\<open>%XX\<close>, or failure.\<close>

fun continuation_octets :: "nat \<Rightarrow> code_unit list \<Rightarrow> nat list option" where
  "continuation_octets 0 s = Some []"
| "continuation_octets (Suc j) s =
     (if length s < 3 then None
      else if hd s \<noteq> percent then None
      else case ParseHexOctet (tl s) of
             None \<Rightarrow> None
           | Some b \<Rightarrow> map_option ((#) b) (continuation_octets j (drop 3 s)))"

text \<open>
  The octets are a valid UTF-8 encoding when every continuation octet is in 80..BF and
  the value is not over-long, not a surrogate and at most 10FFFF.
\<close>

definition continuation :: "nat \<Rightarrow> bool" where
  "continuation b \<longleftrightarrow> 0x80 \<le> b \<and> b \<le> 0xBF"

fun utf8_decode :: "nat list \<Rightarrow> nat option" where
  "utf8_decode [b0, b1] =
     (let v = (b0 - 0xC0) * 0x40 + (b1 - 0x80) in
      if continuation b1 \<and> 0x80 \<le> v then Some v else None)"
| "utf8_decode [b0, b1, b2] =
     (let v = (b0 - 0xE0) * 0x1000 + (b1 - 0x80) * 0x40 + (b2 - 0x80) in
      if continuation b1 \<and> continuation b2 \<and> 0x800 \<le> v \<and> \<not> (0xD800 \<le> v \<and> v \<le> 0xDFFF)
      then Some v else None)"
| "utf8_decode [b0, b1, b2, b3] =
     (let v = (b0 - 0xF0) * 0x40000 + (b1 - 0x80) * 0x1000 + (b2 - 0x80) * 0x40 + (b3 - 0x80) in
      if continuation b1 \<and> continuation b2 \<and> continuation b3 \<and> 0x10000 \<le> v \<and> v \<le> 0x10FFFF
      then Some v else None)"
| "utf8_decode _ = None"

definition UTF16EncodeCodePoint :: "nat \<Rightarrow> code_unit list" where
  "UTF16EncodeCodePoint cp =
     (if cp \<le> 0xFFFF then [of_nat cp]
      else [of_nat ((cp - 0x10000) div 0x400 + 0xD800),
            of_nat ((cp - 0x10000) mod 0x400 + 0xDC00)])"

function Decode :: "code_unit list \<Rightarrow> error + code_unit list" where
  "Decode [] = Inr []"
| "Decode (C # rest) =
     (if C \<noteq> percent then bind_append [C] (Decode rest)
      else
        case ParseHexOctet rest of
          None \<Rightarrow> Inl URIError
        | Some B \<Rightarrow>
            let n = leading_ones B in
            if n = 0 then bind_append [of_nat B] (Decode (drop 2 rest))
            else if n = 1 \<or> n > 4 then Inl URIError
            else
              case continuation_octets (n - 1) (drop 2 rest) of
                None \<Rightarrow> Inl URIError
              | Some Octets \<Rightarrow>
                  (case utf8_decode (B # Octets) of
                     None \<Rightarrow> Inl URIError
                   | Some V \<Rightarrow>
                       bind_append (UTF16EncodeCodePoint V)
                         (Decode (drop (2 + 3 * (n - 1)) rest))))"
  by pat_completeness auto
termination
  by (relation "measure length") auto

definition decodeURIComponent :: "code_unit list \<Rightarrow> error + code_unit list" where
  "decodeURIComponent s = Decode s"

text \<open>
  A string is well formed when it has no unpaired surrogate
  (\<^verbatim>\<open>String.prototype.isWellFormed\<close>); \<open>scalar\<close> is a Unicode scalar value.
\<close>

definition scalar :: "nat \<Rightarrow> bool" where
  "scalar cp \<longleftrightarrow> cp < 0x110000 \<and> \<not> (0xD800 \<le> cp \<and> cp \<le> 0xDFFF)"

fun well_formed :: "code_unit list \<Rightarrow> bool" where
  "well_formed [] = True"
| "well_formed [c] = (\<not> is_leading_surrogate c \<and> \<not> is_trailing_surrogate c)"
| "well_formed (c # d # rest) =
     (if is_leading_surrogate c then is_trailing_surrogate d \<and> well_formed rest
      else \<not> is_trailing_surrogate c \<and> well_formed (d # rest))"

section \<open>Properties of the number model\<close>

text \<open>
  \<open>round_double_eval\<close> are the equations that evaluate \<open>round_double\<close> on a given
  rational.
\<close>

lemma floor_rat_numeral:
  "\<lfloor>numeral a / numeral b :: rat\<rfloor> = numeral a div numeral b"
  using floor_divide_of_int_eq [of "numeral a" "numeral b", where 'a = rat] by simp

lemmas round_double_eval =
  round_double_def log2_floor.simps round_half_even_def Let_def power_int_minus
  floor_rat_numeral

lemma pow2_Suc: "(2::rat) powi (e + 1) = 2 * 2 powi e"
  by (simp add: power_int_add)

lemma pow2_pred: "(2::rat) powi (e - 1) = 2 powi e / 2"
  by (simp add: power_int_diff)

text \<open>\<open>log2_floor\<close> finds the binade: \<open>2 ^ e \<le> a < 2 ^ (e + 1)\<close>.\<close>

lemma log2_floor_bounds:
  "0 < a \<Longrightarrow> 2 powi log2_floor a \<le> a \<and> a < 2 powi (log2_floor a + 1)"
proof (induction a rule: log2_floor.induct)
  case (1 a)
  show ?case
  proof (cases "2 \<le> a")
    case True
    then have e: "log2_floor a = log2_floor (a / 2) + 1"
      by (subst log2_floor.simps) simp
    from True have "0 < a / 2" by simp
    from "1.IH"(1) [OF True this]
    have "2 powi log2_floor (a / 2) \<le> a / 2" and "a / 2 < 2 powi (log2_floor (a / 2) + 1)"
      by simp_all
    then show ?thesis
      unfolding e pow2_Suc by simp
  next
    case False
    show ?thesis
    proof (cases "a < 1")
      case True
      with "1.prems" False have e: "log2_floor a = log2_floor (a * 2) - 1"
        by (subst log2_floor.simps) simp
      have c: "0 < a \<and> a < 1" using True "1.prems" by simp
      have "0 < a * 2" using "1.prems" by simp
      from "1.IH"(2) [OF False c this]
      have "2 powi log2_floor (a * 2) \<le> a * 2" and "a * 2 < 2 powi (log2_floor (a * 2) + 1)"
        by simp_all
      then show ?thesis
        unfolding e by (simp add: pow2_pred pow2_Suc)
    next
      case ge: False
      with False have "log2_floor a = 0"
        by (subst log2_floor.simps) simp
      then show ?thesis using False ge by simp
    qed
  qed
qed

text \<open>Every integer below \<open>2 ^ 53\<close> in magnitude is a double, and rounding leaves it alone.\<close>

lemma round_half_even_of_int: "round_half_even (of_int k) = k"
  by (simp add: round_half_even_def)

lemma round_double_of_int:
  assumes "\<bar>n\<bar> < 2 ^ 53"
  shows "round_double (of_int n) = Finite (of_int n)"
proof (cases "n = 0")
  case True
  then show ?thesis by (simp add: round_double_def)
next
  case False
  define a :: rat where "a = \<bar>of_int n\<bar>"
  define e where "e = log2_floor a"
  have a1: "1 \<le> a" using False by (simp add: a_def) 
  have a53: "a < 2 ^ 53"
  proof -
    have "a = of_int \<bar>n\<bar>" by (simp add: a_def)
    also have "\<dots> < of_int (2 ^ 53)" using assms by (simp only: of_int_less_iff)
    finally show ?thesis by simp
  qed
  have b: "2 powi e \<le> a" "a < 2 powi (e + 1)"
    using log2_floor_bounds [of a] a1 by (simp_all add: e_def)
  have e0: "0 \<le> e"
  proof (rule ccontr)
    assume "\<not> 0 \<le> e"
    then have "e + 1 \<le> 0" by simp
    then have "(2::rat) powi (e + 1) \<le> 2 powi 0"
      by (intro power_int_increasing) simp_all
    with b(2) a1 show False by simp
  qed
  have e52: "e \<le> 52"
  proof (rule ccontr)
    assume "\<not> e \<le> 52"
    then have "53 \<le> e" by simp
    then have "(2::rat) powi 53 \<le> 2 powi e"
      by (intro power_int_increasing) simp_all
    with b(1) a53 show False by simp
  qed
  define k where "k = nat (52 - e)"
  have q: "max e (- 1022) - 52 = - int k" using e0 e52 by (simp add: k_def)
  have p: "(2::rat) powi (- int k) = 1 / 2 ^ k"
    by (simp add: power_int_minus_divide)
  have m: "a / (1 / 2 ^ k) = of_int (\<bar>n\<bar> * 2 ^ k)"
    by (simp add: a_def)
  have r: "of_int (\<bar>n\<bar> * 2 ^ k) * (1 / 2 ^ k) = a"
    by (simp add: a_def)
  have lt: "\<not> 2 ^ 1024 \<le> a"
  proof -
    have "(2::rat) ^ 53 \<le> 2 ^ 1024" by (rule power_increasing) simp_all
    with a53 show ?thesis by linarith
  qed
  have s: "sgn (of_int n :: rat) * a = of_int n"
    by (simp add: a_def sgn_if)
  have nz: "(of_int n :: rat) \<noteq> 0" using False by simp
  show ?thesis
    unfolding round_double_def a_def [symmetric] Let_def e_def [symmetric] q p m
      round_half_even_of_int r
    using nz lt s by simp
qed

text \<open>
  The numbers of the backoff: the doubling and the conversion to milliseconds are exact
  on every delay the watch can hold.
\<close>

lemma backoff_values:
  assumes "d \<in> set [1 / 2, 1, 2, 4, 8, 16, 32]"
  shows "js_mul (Finite d) (Finite 1000) = Finite (d * 1000)"
    and "js_min (js_mul (Finite d) DELAY_MULT) MAX_DELAY = Finite (min (d * 2) 32)"
    and "min (d * 2) 32 \<in> set [1 / 2, 1, 2, 4, 8, 16, 32]"
proof -
  have d: "d = 1 / 2 \<or> d = 1 \<or> d = 2 \<or> d = 4 \<or> d = 8 \<or> d = 16 \<or> d = 32"
    using assms by simp
  show "js_mul (Finite d) (Finite 1000) = Finite (d * 1000)"
    using d by (elim disjE; hypsubst; simp add: round_double_eval)
  show "js_min (js_mul (Finite d) DELAY_MULT) MAX_DELAY = Finite (min (d * 2) 32)"
    using d by (elim disjE; hypsubst; simp add: round_double_eval DELAY_MULT_def MAX_DELAY_def)
  show "min (d * 2) 32 \<in> set [1 / 2, 1, 2, 4, 8, 16, 32]"
    using d by (elim disjE; hypsubst; simp)
qed

lemma js_mul_of_int:
  "\<bar>m * n\<bar> < 2 ^ 53 \<Longrightarrow>
   js_mul (Finite (of_int m)) (Finite (of_int n)) = Finite (of_int (m * n))"
  using round_double_of_int [of "m * n"] by simp


section \<open>Properties of the poll scheduler\<close>

subsection \<open>Reachable states\<close>

lemma settled_TSDBWatch: "settled ws (TSDBWatch ws)"
  by (simp add: settled_def TSDBWatch_def sendRequest_def)

lemma settled_step:
  assumes "settled ws w" and "step e w = Some w'"
  shows "settled ws w'"
  using assms
  by (cases e)
     (auto simp: settled_def retry_def onLoad_def destroy_def sendRequest_def
        setTimeout_def clearTimeout_def Let_def
        split: if_splits option.splits completion.splits)

lemma settled_run:
  "settled ws w \<Longrightarrow> run es w = Some w' \<Longrightarrow> settled ws w'"
proof (induction es arbitrary: w)
  case Nil
  then show ?case by simp
next
  case (Cons e es)
  then show ?case by (auto split: option.splits dest: settled_step)
qed

lemma run_append:
  "run (es @ fs) w = (case run es w of None \<Rightarrow> None | Some w' \<Rightarrow> run fs w')"
  by (induction es arbitrary: w) (auto split: option.splits)

lemma settled_requesting:
  "settled ws w \<Longrightarrow> requests w \<noteq> 0 \<Longrightarrow> requesting w"
  by (simp add: settled_def requesting_def split: if_splits)

lemma requesting_TSDBWatch: "requesting (TSDBWatch ws)"
  by (simp add: requesting_def TSDBWatch_def sendRequest_def)

subsection \<open>One step from a requesting state\<close>

lemma onLoad_success:
  assumes "truthy data" and "requesting w"
  shows "step (Load data Returns) w =
           Some (w\<lparr>delay := Finite (1 / 2), timer := Some (next_handle w),
                   timeouts := [(next_handle w, js_mul (refresh w) (Finite 1000))],
                   next_handle := Suc (next_handle w), requests := 0,
                   calls := calls w @ [data],
                   armed := armed w @ [js_mul (refresh w) (Finite 1000)]\<rparr>)"
  using assms
  by (simp add: requesting_def onLoad_def setTimeout_def MIN_DELAY_def)

lemma onLoad_throws:
  assumes "truthy data" and "requesting w"
  shows "step (Load data Throws) w =
           Some (w\<lparr>delay := Finite (1 / 2), requests := 0, calls := calls w @ [data]\<rparr>)"
  using assms
  by (simp add: requesting_def onLoad_def MIN_DELAY_def)

lemma failure_step:
  assumes "failure f" and "requesting w"
  shows "step f w =
           Some (w\<lparr>delay := js_min (js_mul (delay w) DELAY_MULT) MAX_DELAY,
                   timer := Some (next_handle w),
                   timeouts := [(next_handle w, js_mul (delay w) (Finite 1000))],
                   next_handle := Suc (next_handle w), requests := 0,
                   armed := armed w @ [js_mul (delay w) (Finite 1000)]\<rparr>)"
  using assms
  by (cases f) (simp_all add: requesting_def retry_def onLoad_def setTimeout_def)

lemma failure_cycle:
  assumes "failure f" and "requesting w"
  shows "run [f, Fire (next_handle w)] w =
           Some (w\<lparr>delay := js_min (js_mul (delay w) DELAY_MULT) MAX_DELAY,
                   armed := armed w @ [js_mul (delay w) (Finite 1000)],
                   next_handle := Suc (next_handle w)\<rparr>)"
  using assms
  by (cases f)
     (simp_all add: requesting_def retry_def onLoad_def setTimeout_def clearTimeout_def
        sendRequest_def)

lemma failures_run:
  assumes "list_all failure fs" and "requesting w" and "delay w = Finite d"
    and "d \<in> set [1 / 2, 1, 2, 4, 8, 16, 32]"
  shows "run (failures fs (next_handle w)) w =
           Some (w\<lparr>delay := Finite (backoff (length fs) d),
                   armed := armed w @ map (\<lambda>k. Finite (backoff k d * 1000)) [0..<length fs],
                   next_handle := next_handle w + length fs\<rparr>)"
  using assms
proof (induction fs arbitrary: w d)
  case Nil
  then show ?case by simp
next
  case (Cons f fs)
  let ?d = "min (d * 2) 32"
  let ?w = "w\<lparr>delay := Finite ?d,
                armed := armed w @ [Finite (d * 1000)],
                next_handle := Suc (next_handle w)\<rparr>"
  from Cons.prems have f: "failure f" and fs: "list_all failure fs" by simp_all
  note b = backoff_values [OF Cons.prems(4)]
  have cyc: "run [f, Fire (next_handle w)] w = Some ?w"
    using failure_cycle [OF f Cons.prems(2)] unfolding Cons.prems(3) b(1) b(2) .
  have req: "requesting ?w" using Cons.prems(2) by (simp add: requesting_def)
  have dw: "delay ?w = Finite ?d" by simp
  have "run (failures (f # fs) (next_handle w)) w = run (failures fs (next_handle ?w)) ?w"
    using run_append [of "[f, Fire (next_handle w)]" "failures fs (Suc (next_handle w))" w]
    by (simp only: cyc failures.simps append_Cons append_Nil option.case watch.simps
          watch.select_convs watch.update_convs) simp
  also have "\<dots> = Some (?w\<lparr>delay := Finite (backoff (length fs) ?d),
                   armed := armed ?w @ map (\<lambda>k. Finite (backoff k ?d * 1000)) [0..<length fs],
                   next_handle := next_handle ?w + length fs\<rparr>)"
    by (rule Cons.IH [OF fs req dw b(3)])
  finally show ?case
    by (simp add: upt_rec [of 0 "Suc (length fs)"] map_Suc_upt [symmetric] del: upt_Suc)
qed

lemma backoff_32: "backoff n 32 = 32"
  by (induction n) simp_all

lemma backoff_half: "backoff n (1 / 2) = (if n < 6 then 2 ^ n / 2 else 32)"
proof -
  have "backoff (6 + m) (1 / 2) = 32" for m
    by (simp add: eval_nat_numeral backoff_32)
  moreover have "n < 6 \<Longrightarrow> backoff n (1 / 2) = 2 ^ n / 2"
    by (auto simp: eval_nat_numeral less_Suc_eq)
  ultimately show ?thesis
    by (metis le_add_diff_inverse not_less)
qed

lemma backoff_sequence:
  "map (\<lambda>k. Finite (backoff k (1 / 2) * 1000)) [0..<n] =
   map (\<lambda>k. Finite (if k < 6 then 500 * 2 ^ k else 32000)) [0..<n]"
  by (simp add: backoff_half)

subsection \<open>A watch destroyed while it waits\<close>

text \<open>
  When \<open>destroy\<close> is called while no request is outstanding, it clears the pending
  timeout, and from then on the callback is not called and no timeout is armed, whatever
  happens.
\<close>

lemma stopped_step:
  assumes "stopped w" and "step e w = Some w'"
  shows "stopped w' \<and> calls w' = calls w \<and> armed w' = armed w"
  using assms
  by (cases e) (auto simp: stopped_def destroy_def clearTimeout_def split: if_splits)

lemma stopped_run:
  "stopped w \<Longrightarrow> run es w = Some w' \<Longrightarrow> calls w' = calls w \<and> armed w' = armed w"
proof (induction es arbitrary: w)
  case Nil
  then show ?case by simp
next
  case (Cons e es)
  from Cons.prems(2) obtain v where v: "step e w = Some v" and r: "run es v = Some w'"
    by (auto split: option.splits)
  from stopped_step [OF Cons.prems(1) v] Cons.IH [OF _ r] show ?case by simp
qed

lemma destroy_while_waiting:
  assumes "run es (TSDBWatch ws) = Some w" and "requests w = 0"
    and "run (Destroy # fs) w = Some w'"
  shows "calls w' = calls w \<and> armed w' = armed w"
proof -
  have s: "settled ws w"
    using assms(1) by (rule settled_run [OF settled_TSDBWatch])
  have "stopped (destroy w)"
    using s assms(2)
    by (auto simp: settled_def stopped_def destroy_def clearTimeout_def split: option.splits)
  moreover have "calls (destroy w) = calls w" and "armed (destroy w) = armed w"
    by (simp_all add: destroy_def clearTimeout_def)
  moreover have "run fs (destroy w) = Some w'" using assms(3) by simp
  ultimately show ?thesis using stopped_run by metis
qed

subsection \<open>The claims\<close>

text \<open>
  C1. Claimed: after \<open>destroy\<close> the callback is never invoked again and no timer is
  armed, also for a response already in flight. The code does otherwise: \<open>destroy\<close>
  only clears a pending timeout, and while a request is outstanding
  \<^verbatim>\<open>timer_\<close> is \<^verbatim>\<open>null\<close>, so \<open>destroy\<close> changes nothing. When the response then
  loads, \<open>onLoad\<close> calls the callback and arms the refresh timer. Below: a watch on the
  20-minute window is destroyed right after construction, then its response arrives; the
  callback has been called with the payload and a 30000 ms timeout is pending.
\<close>

theorem C1_destroy_then_late_response:
  "run [Destroy, Load (JArr []) Returns] (TSDBWatch (Finite 1200)) =
     Some \<lparr>refresh = Finite 30, delay = Finite (1 / 2), timer = Some 1,
           timeouts = [(1, Finite 30000)], next_handle = 2, requests = 0,
           calls = [JArr []], armed = [Finite 30000], console = []\<rparr>"
  by (simp add: TSDBWatch_def sendRequest_def destroy_def onLoad_def setTimeout_def
      MIN_DELAY_def round_double_eval)

text \<open>
  C2. Backoff. From a new watch, let every poll fail (each failure followed by the firing
  of the retry timer it armed). The delays passed to \<^verbatim>\<open>setTimeout\<close> are then, in
  milliseconds, 500, 1000, 2000, 4000, 8000, 16000, 32000 and 32000 from then on: the
  \<open>k\<close>-th is \<open>500 * 2 ^ k\<close> for \<open>k < 6\<close> and 32000 afterwards, and the delay held for
  the next failure is the doubled one, clamped at 32. A success in any state the watch
  can reach sets the delay to 0.5, and when the callback has returned and the refresh
  timer has fired, the failures that follow are retried after the same sequence of
  delays, from 500 on.
\<close>

theorem C2_backoff_sequence:
  assumes "list_all failure fs" and "run es (TSDBWatch ws) = Some w" and "truthy data"
    and "step (Load data c) w = Some w'"
  shows "map_option (\<lambda>v. (armed v, delay v)) (run (failures fs 1) (TSDBWatch ws)) =
           Some (map (\<lambda>k. Finite (if k < 6 then 500 * 2 ^ k else 32000)) [0..<length fs],
                 Finite (if length fs < 6 then 2 ^ length fs / 2 else 32)) \<and>
         delay w' = Finite (1 / 2) \<and>
         (c = Returns \<longrightarrow>
          map_option (\<lambda>v. (armed v, delay v))
             (run (Fire (next_handle w) # failures fs (Suc (next_handle w))) w') =
           Some (armed w' @
                   map (\<lambda>k. Finite (if k < 6 then 500 * 2 ^ k else 32000)) [0..<length fs],
                 Finite (if length fs < 6 then 2 ^ length fs / 2 else 32)))"
proof -
  let ?w0 = "TSDBWatch ws"
  have half: "(1 / 2 :: rat) \<in> set [1 / 2, 1, 2, 4, 8, 16, 32]" by simp
  have h0: "next_handle ?w0 = 1" and d0: "delay ?w0 = Finite (1 / 2)" and a0: "armed ?w0 = []"
    by (simp_all add: TSDBWatch_def sendRequest_def MIN_DELAY_def)
  have A: "map_option (\<lambda>v. (armed v, delay v)) (run (failures fs 1) ?w0) =
           Some (map (\<lambda>k. Finite (if k < 6 then 500 * 2 ^ k else 32000)) [0..<length fs],
                 Finite (if length fs < 6 then 2 ^ length fs / 2 else 32))"
    using failures_run [OF assms(1) requesting_TSDBWatch d0 half]
    by (simp only: h0 option.map) (simp add: a0 backoff_sequence backoff_half)
  have s: "settled ws w"
    using assms(2) by (rule settled_run [OF settled_TSDBWatch])
  have "requests w \<noteq> 0"
    using assms(4) by (auto split: if_splits)
  with s have req: "requesting w" by (rule settled_requesting)
  have B: "delay w' = Finite (1 / 2)"
  proof (cases c)
    case Returns
    with onLoad_success [OF assms(3) req] assms(4) show ?thesis by auto
  next
    case Throws
    with onLoad_throws [OF assms(3) req] assms(4) show ?thesis by auto
  qed
  have C: "map_option (\<lambda>v. (armed v, delay v))
             (run (Fire (next_handle w) # failures fs (Suc (next_handle w))) w') =
           Some (armed w' @
                   map (\<lambda>k. Finite (if k < 6 then 500 * 2 ^ k else 32000)) [0..<length fs],
                 Finite (if length fs < 6 then 2 ^ length fs / 2 else 32))"
    if c: "c = Returns"
  proof -
    have w': "w' = w\<lparr>delay := Finite (1 / 2), timer := Some (next_handle w),
                   timeouts := [(next_handle w, js_mul (refresh w) (Finite 1000))],
                   next_handle := Suc (next_handle w), requests := 0,
                   calls := calls w @ [data],
                   armed := armed w @ [js_mul (refresh w) (Finite 1000)]\<rparr>"
      using onLoad_success [OF assms(3) req] assms(4) c by simp
    let ?w2 = "sendRequest (clearTimeout (next_handle w) w')"
    have f: "step (Fire (next_handle w)) w' = Some ?w2"
      by (simp add: w')
    have req2: "requesting ?w2"
      by (simp add: w' requesting_def sendRequest_def clearTimeout_def)
    have h2: "next_handle ?w2 = Suc (next_handle w)" and d2: "delay ?w2 = Finite (1 / 2)"
      and a2: "armed ?w2 = armed w'"
      by (simp_all add: w' sendRequest_def clearTimeout_def)
    have "run (Fire (next_handle w) # failures fs (Suc (next_handle w))) w' =
          run (failures fs (next_handle ?w2)) ?w2"
      by (simp only: run.simps f option.case h2)
    then show ?thesis
      using failures_run [OF assms(1) req2 d2 half]
      by (simp only: option.map) (simp add: a2 backoff_sequence backoff_half)
  qed
  from A B C show ?thesis by blast
qed

text \<open>
  On the 20-minute window: nine failures in a row from the start; and, after one failure
  and a success, nine failures in a row again.
\<close>

theorem C2_backoff_sequence_witness:
  "list_all failure [Error, Timeout, Load JNull Returns, Error, Load (JStr []) Returns, Error,
      Error, Timeout, Error] \<and>
   run [Error, Fire 1] (TSDBWatch (Finite 1200)) =
     Some \<lparr>refresh = Finite 30, delay = Finite 1, timer = None, timeouts = [],
           next_handle = 2, requests = 1, calls = [], armed = [Finite 500], console = []\<rparr> \<and>
   truthy (JArr []) \<and>
   step (Load (JArr []) Returns)
     \<lparr>refresh = Finite 30, delay = Finite 1, timer = None, timeouts = [], next_handle = 2,
       requests = 1, calls = [], armed = [Finite 500], console = []\<rparr> =
     Some \<lparr>refresh = Finite 30, delay = Finite (1 / 2), timer = Some 2,
           timeouts = [(2, Finite 30000)], next_handle = 3, requests = 0,
           calls = [JArr []], armed = [Finite 500, Finite 30000], console = []\<rparr> \<and>
   map_option (\<lambda>v. (armed v, delay v))
     (run [Error, Fire 1, Timeout, Fire 2, Load JNull Returns, Fire 3, Error, Fire 4,
           Load (JStr []) Returns, Fire 5, Error, Fire 6, Error, Fire 7, Timeout, Fire 8,
           Error, Fire 9] (TSDBWatch (Finite 1200))) =
     Some (map Finite [500, 1000, 2000, 4000, 8000, 16000, 32000, 32000, 32000],
           Finite 32) \<and>
   map_option (\<lambda>v. (armed v, delay v))
     (run [Fire 2, Error, Fire 3, Timeout, Fire 4, Load JNull Returns, Fire 5, Error, Fire 6,
           Load (JStr []) Returns, Fire 7, Error, Fire 8, Error, Fire 9, Timeout, Fire 10,
           Error, Fire 11]
        \<lparr>refresh = Finite 30, delay = Finite (1 / 2), timer = Some 2,
          timeouts = [(2, Finite 30000)], next_handle = 3, requests = 0,
          calls = [JArr []], armed = [Finite 500, Finite 30000], console = []\<rparr>) =
     Some (map Finite
             [500, 30000, 500, 1000, 2000, 4000, 8000, 16000, 32000, 32000, 32000],
           Finite 32)"
proof -
  let ?fs = "[Error, Timeout, Load JNull Returns, Error, Load (JStr []) Returns, Error,
      Error, Timeout, Error]"
  let ?w = "\<lparr>refresh = Finite 30, delay = Finite 1, timer = None, timeouts = [],
       next_handle = 2, requests = 1, calls = [], armed = [Finite 500], console = []\<rparr>"
  let ?w' = "\<lparr>refresh = Finite 30, delay = Finite (1 / 2), timer = Some 2,
           timeouts = [(2, Finite 30000)], next_handle = 3, requests = 0,
           calls = [JArr []], armed = [Finite 500, Finite 30000], console = []\<rparr>"
  have h1: "list_all failure ?fs" by simp
  have h2: "run [Error, Fire 1] (TSDBWatch (Finite 1200)) = Some ?w"
    by (simp add: TSDBWatch_def sendRequest_def retry_def setTimeout_def clearTimeout_def
        MIN_DELAY_def DELAY_MULT_def MAX_DELAY_def round_double_eval)
  have h3: "truthy (JArr [])" by simp
  have h4: "step (Load (JArr []) Returns) ?w = Some ?w'"
    by (simp add: onLoad_def setTimeout_def MIN_DELAY_def round_double_eval)
  have len: "length ?fs = 9" by simp
  have evs1: "failures ?fs 1 =
     [Error, Fire 1, Timeout, Fire 2, Load JNull Returns, Fire 3, Error, Fire 4,
      Load (JStr []) Returns, Fire 5, Error, Fire 6, Error, Fire 7, Timeout, Fire 8,
      Error, Fire 9]"
    by (simp add: eval_nat_numeral)
  have evs2: "failures ?fs (Suc 2) =
     [Error, Fire 3, Timeout, Fire 4, Load JNull Returns, Fire 5, Error, Fire 6,
      Load (JStr []) Returns, Fire 7, Error, Fire 8, Error, Fire 9, Timeout, Fire 10,
      Error, Fire 11]"
    by (simp add: eval_nat_numeral)
  have ds: "map (\<lambda>k. Finite (if k < 6 then 500 * 2 ^ k else 32000)) [0..<9] =
     map Finite [500, 1000, 2000, 4000, 8000, 16000, 32000, 32000, 32000]"
    by code_simp
  have nh: "next_handle ?w = 2" and aw: "armed ?w' = [Finite 500, Finite 30000]"
    by simp_all
  show ?thesis
    using C2_backoff_sequence [OF h1 h2 h3 h4] h1 h2 h3 h4
    unfolding len evs1 nh evs2 ds aw
    by simp
qed

text \<open>
  C4. The retry guard. When \<^verbatim>\<open>timer_\<close> is set (it holds the handle of the pending
  timer), \<open>retry\<close> only logs: no timeout is added, and the delay and every other field
  stay as they are. And in every state a watch can reach, through any sequence of
  responses, timer firings and calls of \<open>destroy\<close>, at most one timeout is pending.
\<close>

theorem C4_retry_guard:
  "(timer_set (timer w) \<longrightarrow>
      retry w = w\<lparr>console := console w @ [''Duplicate retry call'']\<rparr>) \<and>
   (run es (TSDBWatch ws) = Some w' \<longrightarrow> length (timeouts w') \<le> 1)"
proof (intro conjI impI)
  assume "timer_set (timer w)"
  then show "retry w = w\<lparr>console := console w @ [''Duplicate retry call'']\<rparr>"
    by (simp add: retry_def)
next
  assume "run es (TSDBWatch ws) = Some w'"
  then have "settled ws w'"
    by (rule settled_run [OF settled_TSDBWatch])
  then have "length (map fst (timeouts w')) \<le> 1"
    by (auto simp: settled_def split: if_splits option.splits)
  then show "length (timeouts w') \<le> 1" by simp
qed

text \<open>A watch whose first request failed: its retry timer is pending, a second retry is ignored.\<close>

theorem C4_retry_guard_witness:
  "timer_set (Some 1) \<and>
   retry \<lparr>refresh = Finite 30, delay = Finite 1, timer = Some 1,
          timeouts = [(1, Finite 500)], next_handle = 2, requests = 0, calls = [],
          armed = [Finite 500], console = []\<rparr> =
     \<lparr>refresh = Finite 30, delay = Finite 1, timer = Some 1, timeouts = [(1, Finite 500)],
      next_handle = 2, requests = 0, calls = [], armed = [Finite 500],
      console = [''Duplicate retry call'']\<rparr> \<and>
   run [Error] (TSDBWatch (Finite 1200)) =
     Some \<lparr>refresh = Finite 30, delay = Finite 1, timer = Some 1,
           timeouts = [(1, Finite 500)], next_handle = 2, requests = 0, calls = [],
           armed = [Finite 500], console = []\<rparr> \<and>
   length [(1::nat, Finite 500)] \<le> 1"
proof -
  let ?w = "\<lparr>refresh = Finite 30, delay = Finite 1, timer = Some 1,
           timeouts = [(1, Finite 500)], next_handle = 2, requests = 0, calls = [],
           armed = [Finite 500], console = []\<rparr>"
  have r: "run [Error] (TSDBWatch (Finite 1200)) = Some ?w"
    by (simp add: TSDBWatch_def sendRequest_def retry_def setTimeout_def MIN_DELAY_def
        DELAY_MULT_def MAX_DELAY_def round_double_eval)
  show ?thesis
    using C4_retry_guard [of ?w "[Error]" "Finite 1200" ?w] r by simp
qed




text \<open>
  C6. Claimed: every load with a truthy payload resets the delay, calls the callback and
  schedules the refresh. In \<open>onLoad\<close> the timer is armed after the call of the callback,
  so a callback that throws leaves no timer. The callback of this repository,
  \<^verbatim>\<open>Chart.drawChart_\<close>, throws a TypeError on the truthy payload \<^verbatim>\<open>[null]\<close>
  (it reads \<^verbatim>\<open>timestamps_values\<close> of \<^verbatim>\<open>null\<close>). Below, that load as the first
  response of a watch: the delay is reset, the callback has been called, and no timeout
  is pending.
\<close>

theorem C6_callback_throws:
  "truthy (JArr [JNull]) \<and>
   step (Load (JArr [JNull]) Throws) (TSDBWatch (Finite 1200)) =
     Some \<lparr>refresh = Finite 30, delay = Finite (1 / 2), timer = None, timeouts = [],
           next_handle = 1, requests = 0, calls = [JArr [JNull]], armed = [],
           console = []\<rparr>"
  by (simp add: TSDBWatch_def sendRequest_def onLoad_def MIN_DELAY_def round_double_eval)

text \<open>
  C6, as amended. A load is classified by the truthiness of its payload. In any reachable
  state, a load with a truthy payload resets the delay and calls the callback once with
  the payload, and when the callback returns, the refresh timer is armed; a load with a
  falsy payload leaves the callback alone, arms the retry timer at the current delay and
  doubles the delay up to the ceiling. Note that \<^verbatim>\<open>null\<close>, \<^verbatim>\<open>false\<close>, 0 and the
  empty string are falsy, while an empty array or object is truthy.
\<close>

theorem C6_load_classified:
  assumes "run es (TSDBWatch ws) = Some w" and "step (Load data c) w = Some w'"
  shows "if truthy data
         then delay w' = MIN_DELAY \<and> calls w' = calls w @ [data] \<and>
              (c = Returns \<longrightarrow>
                 armed w' = armed w @ [js_mul (refresh w) (Finite 1000)] \<and>
                 timeouts w' = [(next_handle w, js_mul (refresh w) (Finite 1000))])
         else delay w' = js_min (js_mul (delay w) DELAY_MULT) MAX_DELAY \<and>
              calls w' = calls w \<and>
              armed w' = armed w @ [js_mul (delay w) (Finite 1000)] \<and>
              timeouts w' = [(next_handle w, js_mul (delay w) (Finite 1000))]"
proof -
  have s: "settled ws w"
    using assms(1) by (rule settled_run [OF settled_TSDBWatch])
  have "requests w \<noteq> 0"
    using assms(2) by (auto split: if_splits)
  with s have req: "requesting w" by (rule settled_requesting)
  show ?thesis
  proof (cases "truthy data")
    case True
    show ?thesis
    proof (cases c)
      case Returns
      from onLoad_success [OF True req] assms(2) True Returns
      show ?thesis by (auto simp: MIN_DELAY_def)
    next
      case Throws
      from onLoad_throws [OF True req] assms(2) True Throws
      show ?thesis by (auto simp: MIN_DELAY_def)
    qed
  next
    case False
    then have "failure (Load data c)" by simp
    from failure_step [OF this req] assms(2) False
    show ?thesis by auto
  qed
qed

text \<open>A truthy and a falsy first response on the 20-minute window.\<close>

theorem C6_load_classified_witness:
  "run [] (TSDBWatch (Finite 1200)) = Some (TSDBWatch (Finite 1200)) \<and>
   step (Load (JArr []) Returns) (TSDBWatch (Finite 1200)) =
     Some \<lparr>refresh = Finite 30, delay = Finite (1 / 2), timer = Some 1,
           timeouts = [(1, Finite 30000)], next_handle = 2, requests = 0,
           calls = [JArr []], armed = [Finite 30000], console = []\<rparr> \<and>
   truthy (JArr []) \<and>
   step (Load JNull Returns) (TSDBWatch (Finite 1200)) =
     Some \<lparr>refresh = Finite 30, delay = Finite 1, timer = Some 1,
           timeouts = [(1, Finite 500)], next_handle = 2, requests = 0,
           calls = [], armed = [Finite 500], console = []\<rparr> \<and>
   \<not> truthy JNull"
proof -
  have a: "step (Load (JArr []) Returns) (TSDBWatch (Finite 1200)) =
     Some \<lparr>refresh = Finite 30, delay = Finite (1 / 2), timer = Some 1,
           timeouts = [(1, Finite 30000)], next_handle = 2, requests = 0,
           calls = [JArr []], armed = [Finite 30000], console = []\<rparr>"
    by (simp add: TSDBWatch_def sendRequest_def onLoad_def setTimeout_def MIN_DELAY_def
        round_double_eval)
  have b: "step (Load JNull Returns) (TSDBWatch (Finite 1200)) =
     Some \<lparr>refresh = Finite 30, delay = Finite 1, timer = Some 1,
           timeouts = [(1, Finite 500)], next_handle = 2, requests = 0,
           calls = [], armed = [Finite 500], console = []\<rparr>"
    by (simp add: TSDBWatch_def sendRequest_def onLoad_def retry_def setTimeout_def
        MIN_DELAY_def DELAY_MULT_def MAX_DELAY_def round_double_eval)
  show ?thesis
    using C6_load_classified [of "[]" "Finite 1200" "TSDBWatch (Finite 1200)" "JArr []" Returns, OF _ a]
      C6_load_classified [of "[]" "Finite 1200" "TSDBWatch (Finite 1200)" JNull Returns, OF _ b] a b
    by simp
qed

section \<open>Properties of the table assembly\<close>

subsection \<open>What the loops compute\<close>

lemma tags_loop_eq:
  "tags_loop kvs acc = acc @ map (\<lambda>(key, v). key @ ''='' @ v) kvs"
  by (induction kvs acc rule: tags_loop.induct) simp_all

lemma columns_loop_eq:
  "n \<le> length data \<Longrightarrow>
   columns_loop n (data, t) =
     (filter (\<lambda>ts. timestamps_values ts \<noteq> []) (take n data) @ drop n data,
      t\<lparr>columns := columns t @
           rev (map (\<lambda>ts. (''number'', join '','' (tags_loop (tags ts) [])))
                  (filter (\<lambda>ts. timestamps_values ts \<noteq> []) (take n data)))\<rparr>)"
proof (induction n arbitrary: data t)
  case 0
  then show ?case by simp
next
  case (Suc n)
  then have n: "n < length data" by simp
  have tk: "take (Suc n) data = take n data @ [data ! n]"
    using n by (simp add: take_Suc_conv_app_nth)
  show ?case
  proof (cases "timestamps_values (data ! n) = []")
    case True
    have len: "n \<le> length (splice_arr n (Suc 0) data)"
      using n by (simp add: splice_arr_def)
    have t1: "take n (splice_arr n (Suc 0) data) = take n data"
      using n by (simp add: splice_arr_def)
    have d1: "drop n (splice_arr n (Suc 0) data) = drop (Suc n) data"
      using n by (simp add: splice_arr_def)
    show ?thesis
      using True Suc.IH [OF len, of t] by (simp add: tk t1 d1)
  next
    case False
    have len: "n \<le> length data" using n by simp
    have d1: "data ! n # drop (Suc n) data = drop n data"
      using n by (simp add: Cons_nth_drop_Suc)
    show ?thesis
      using False Suc.IH [OF len, of "addColumn ''number'' (join '','' (tags_loop (tags (data ! n)) [])) t"]
      by (simp add: tk d1 addColumn_def)
  qed
qed

lemma push_nulls_eq: "push_nulls k n row = row @ replicate (n - k) Null"
proof (induction k n row rule: push_nulls.induct)
  case (1 k n row)
  show ?case
  proof (cases "k < n")
    case True
    then have "n - k = Suc (n - (k + 1))" by simp
    with True "1" show ?thesis
      by (subst push_nulls.simps) (simp add: replicate_app_Cons_same)
  next
    case False
    then show ?thesis by (subst push_nulls.simps) simp
  qed
qed

lemma samples_loop_eq:
  "samples_loop j i data t =
     t\<lparr>rows := rows t @
          map (sample_row i (length data)) (drop j (timestamps_values (data ! i)))\<rparr>"
proof (induction j i data t rule: samples_loop.induct)
  case (1 j i data t)
  let ?tv = "timestamps_values (data ! i)"
  show ?case
  proof (cases "j < length ?tv")
    case True
    have d: "drop j ?tv = ?tv ! j # drop (j + 1) ?tv"
      using True by (simp add: Cons_nth_drop_Suc)
    show ?thesis
      using True "1.IH" [OF refl True refl refl refl refl]
      by (subst samples_loop.simps)
         (simp add: Let_def push_nulls_eq addRow_def sample_row_def d)
  next
    case False
    then show ?thesis by (subst samples_loop.simps) simp
  qed
qed

lemma rows_loop_eq:
  "rows_loop i data t =
     t\<lparr>rows := rows t @
          concat (map (\<lambda>i. map (sample_row i (length data)) (timestamps_values (data ! i)))
                    [i..<length data])\<rparr>"
proof (induction i data t rule: rows_loop.induct)
  case (1 i data t)
  show ?case
  proof (cases "i < length data")
    case True
    show ?thesis
      using True "1.IH" [OF True]
      by (subst rows_loop.simps) (simp add: samples_loop_eq upt_rec [of i])
  next
    case False
    then show ?thesis by (subst rows_loop.simps) simp
  qed
qed

lemma drawChart_eq:
  "drawChart data =
     (filter (\<lambda>ts. timestamps_values ts \<noteq> []) data,
      \<lparr>columns = (''date'', ''Timestamp'') #
           rev (map (\<lambda>ts. (''number'', join '','' (tags_loop (tags ts) [])))
                  (filter (\<lambda>ts. timestamps_values ts \<noteq> []) data)),
       rows = concat (map (\<lambda>i. map (sample_row i (length (filter (\<lambda>ts. timestamps_values ts \<noteq> []) data)))
                 (timestamps_values (filter (\<lambda>ts. timestamps_values ts \<noteq> []) data ! i)))
                    [0..<length (filter (\<lambda>ts. timestamps_values ts \<noteq> []) data)])\<rparr>)"
  by (simp add: drawChart_def columns_loop_eq rows_loop_eq addColumn_def DataTable_def)

lemma sum_samples_filter:
  "sum_list (map (\<lambda>ts. length (timestamps_values ts))
      (filter (\<lambda>ts. timestamps_values ts \<noteq> []) data)) =
   sum_list (map (\<lambda>ts. length (timestamps_values ts)) data)"
  by (induction data) simp_all

lemma length_rows_indexed:
  "length (concat (map (\<lambda>i. map (f i) (timestamps_values (xs ! i))) [0..<length xs])) =
   sum_list (map (\<lambda>ts. length (timestamps_values ts)) xs)"
proof -
  have "map length (map (\<lambda>i. map (f i) (timestamps_values (xs ! i))) [0..<length xs]) =
        map (\<lambda>i. length (timestamps_values (xs ! i))) [0..<length xs]"
    by simp
  also have "\<dots> = map (\<lambda>ts. length (timestamps_values ts)) (map ((!) xs) [0..<length xs])"
    by (simp add: comp_def)
  also have "\<dots> = map (\<lambda>ts. length (timestamps_values ts)) xs"
    by (simp only: map_nth)
  finally show ?thesis by (simp add: length_concat)
qed

lemma drawChart_rows_length:
  "length (rows (snd (drawChart data))) =
     sum_list (map (\<lambda>ts. length (timestamps_values ts)) data)"
  by (simp add: drawChart_eq length_rows_indexed sum_samples_filter del: length_concat)

text \<open>
  A timestamp of whole seconds, within the range of \<^verbatim>\<open>Date\<close>: the product is exact
  and the date holds the timestamp times 1000.
\<close>

lemma new_Date_whole_seconds:
  assumes "\<bar>t\<bar> \<le> 8640000000000"
  shows "new_Date (js_mul (Finite (of_int t)) (Finite 1000)) = Date (t * 1000)"
proof -
  have b: "\<bar>t * 1000\<bar> \<le> 8640000000000000" using assms by (simp add: abs_mult)
  then have "\<bar>t * 1000\<bar> < 2 ^ 53" by simp
  from js_mul_of_int [OF this]
  have m: "js_mul (Finite (of_int t)) (Finite 1000) = Finite (of_int (t * 1000))" by simp
  have "\<bar>of_int (t * 1000) :: rat\<bar> \<le> 8640000000000000"
    using b by (metis of_int_abs of_int_le_iff of_int_numeral)
  then show ?thesis
    unfolding m by (simp add: new_Date_def ToIntegerOrInfinity_def del: of_int_mult)
qed

subsection \<open>The claims\<close>

text \<open>
  C3. Claimed: the value columns come in the order of the retained series, and the
  samples of a series are in that series' own column. The code adds the columns in the
  first loop, which walks the array from its last element to its first, so the column
  labels come in reverse order; the second loop puts the values of the series at index
  \<open>i\<close> into value column \<open>i\<close>. With two series \<^verbatim>\<open>host=a\<close> and \<^verbatim>\<open>host=b\<close> the
  columns are Timestamp, \<^verbatim>\<open>host=b\<close>, \<^verbatim>\<open>host=a\<close>, and the samples of
  \<^verbatim>\<open>host=a\<close> stand in the column labelled \<^verbatim>\<open>host=b\<close>.
\<close>

theorem C3_columns_reversed:
  "drawChart
     [\<lparr>tags = [(''host'', ''a'')], timestamps_values = [(100, 1), (200, 2)]\<rparr>,
      \<lparr>tags = [(''host'', ''b'')], timestamps_values = [(150, 3)]\<rparr>] =
     ([\<lparr>tags = [(''host'', ''a'')], timestamps_values = [(100, 1), (200, 2)]\<rparr>,
       \<lparr>tags = [(''host'', ''b'')], timestamps_values = [(150, 3)]\<rparr>],
      \<lparr>columns = [(''date'', ''Timestamp''), (''number'', ''host=b''),
                  (''number'', ''host=a'')],
       rows = [[Date 100000, Number 1, Null],
               [Date 200000, Number 2, Null],
               [Date 150000, Null, Number 3]]\<rparr>)"
  by (simp add: drawChart_eq sample_row_def upt_rec round_double_eval new_Date_def ToIntegerOrInfinity_def)

text \<open>
  C7. Series without samples leave no trace in the table: the table is the one built
  from the input without them. It has one value column per series with samples, and one
  row per sample. For a series \<open>a\<close> with two samples and a series \<open>b\<close> with none, in
  either order, the table has the timestamp column and the column of \<open>a\<close>, and two rows.
\<close>

theorem C7_empty_series_dropped:
  "snd (drawChart data) = snd (drawChart (filter (\<lambda>ts. timestamps_values ts \<noteq> []) data)) \<and>
   length (columns (snd (drawChart data))) =
     Suc (length (filter (\<lambda>ts. timestamps_values ts \<noteq> []) data)) \<and>
   length (rows (snd (drawChart data))) =
     sum_list (map (\<lambda>ts. length (timestamps_values ts)) data) \<and>
   (length (timestamps_values a) = 2 \<and> timestamps_values b = [] \<longrightarrow>
      columns (snd (drawChart [a, b])) =
        [(''date'', ''Timestamp''), (''number'', join '','' (tags_loop (tags a) []))] \<and>
      length (rows (snd (drawChart [a, b]))) = 2 \<and>
      snd (drawChart [b, a]) = snd (drawChart [a, b]))"
proof (intro conjI impI)
  show "snd (drawChart data) = snd (drawChart (filter (\<lambda>ts. timestamps_values ts \<noteq> []) data))"
    by (simp add: drawChart_eq)
  show "length (columns (snd (drawChart data))) =
     Suc (length (filter (\<lambda>ts. timestamps_values ts \<noteq> []) data))"
    by (simp add: drawChart_eq)
  show "length (rows (snd (drawChart data))) =
     sum_list (map (\<lambda>ts. length (timestamps_values ts)) data)"
    by (rule drawChart_rows_length)
next
  assume ab: "length (timestamps_values a) = 2 \<and> timestamps_values b = []"
  then have a: "timestamps_values a \<noteq> []" by auto
  show "columns (snd (drawChart [a, b])) =
        [(''date'', ''Timestamp''), (''number'', join '','' (tags_loop (tags a) []))]"
    using ab a by (simp add: drawChart_eq)
  show "length (rows (snd (drawChart [a, b]))) = 2"
    using ab by (simp add: drawChart_rows_length)
  show "snd (drawChart [b, a]) = snd (drawChart [a, b])"
    using ab a by (simp add: drawChart_eq)
qed

text \<open>Series \<^verbatim>\<open>host=a\<close> with two samples, series \<^verbatim>\<open>host=b\<close> with none.\<close>

theorem C7_empty_series_dropped_witness:
  "length [(100::rat, 1::rat), (200, 2)] = 2 \<and>
   snd (drawChart
     [\<lparr>tags = [(''host'', ''a'')], timestamps_values = [(100, 1), (200, 2)]\<rparr>,
      \<lparr>tags = [(''host'', ''b'')], timestamps_values = []\<rparr>]) =
     \<lparr>columns = [(''date'', ''Timestamp''), (''number'', ''host=a'')],
      rows = [[Date 100000, Number 1], [Date 200000, Number 2]]\<rparr>"
proof -
  let ?a = "\<lparr>tags = [(''host'', ''a'')], timestamps_values = [(100, 1), (200, 2)]\<rparr>"
  let ?b = "\<lparr>tags = [(''host'', ''b'')], timestamps_values = []\<rparr>"
  have t: "snd (drawChart [?a, ?b]) =
     \<lparr>columns = [(''date'', ''Timestamp''), (''number'', ''host=a'')],
      rows = [[Date 100000, Number 1], [Date 200000, Number 2]]\<rparr>"
    by (simp add: drawChart_eq sample_row_def round_double_eval new_Date_def ToIntegerOrInfinity_def)
  show ?thesis
    using C7_empty_series_dropped [of "[?a, ?b]" ?a ?b] t by simp
qed

text \<open>
  C8. Claimed: every sample has a row of its own, holding the timestamp in milliseconds,
  the value in the column of the series that owns the sample, and null in every other
  column. The rows are built as claimed, one per sample and never merged. But with two
  or more series the value does not stand in the column of its series: the columns were
  labelled in reverse order (see C3). Below, two series with one sample each at the same
  timestamp: two rows, and the value 1 of \<^verbatim>\<open>host=a\<close> stands in the column labelled
  \<^verbatim>\<open>host=b\<close>, the value 2 of \<^verbatim>\<open>host=b\<close> in the column labelled
  \<^verbatim>\<open>host=a\<close>.
\<close>

theorem C8_value_under_other_label:
  "snd (drawChart
     [\<lparr>tags = [(''host'', ''a'')], timestamps_values = [(100, 1)]\<rparr>,
      \<lparr>tags = [(''host'', ''b'')], timestamps_values = [(100, 2)]\<rparr>]) =
     \<lparr>columns = [(''date'', ''Timestamp''), (''number'', ''host=b''),
                 (''number'', ''host=a'')],
      rows = [[Date 100000, Number 1, Null],
              [Date 100000, Null, Number 2]]\<rparr>"
  by (simp add: drawChart_eq sample_row_def upt_rec round_double_eval new_Date_def ToIntegerOrInfinity_def)

text \<open>
  C10. The input array is changed: after the call it holds exactly the series with
  samples, in their order; the empty ones have been spliced out of it.
\<close>

theorem C10_input_spliced:
  "fst (drawChart data) = filter (\<lambda>ts. timestamps_values ts \<noteq> []) data"
  by (simp add: drawChart_eq)

section \<open>Properties of the URL fragment encoding\<close>

subsection \<open>Hexadecimal digits and octets\<close>

lemma hex_digits_all: "\<forall>d \<in> set [0..<16]. hex_value (hex_digit d) = Some d"
  by code_simp

lemma hex_value_digit: "d < 16 \<Longrightarrow> hex_value (hex_digit d) = Some d"
  using hex_digits_all by simp

lemma ParseHexOctet_escape:
  "b < 256 \<Longrightarrow> ParseHexOctet (hex_digit (b div 16) # hex_digit (b mod 16) # rest) = Some b"
  by (simp add: hex_value_digit)

declare ParseHexOctet.simps [simp del]

lemma radix64_step:
  "x = y * 0x40 + z \<Longrightarrow> x * k + m = cp \<Longrightarrow> y * (0x40 * k) + z * k + m = (cp::nat)"
  by (simp add: algebra_simps)

lemma radix64_three:
  "(cp::nat) div 0x1000 * 0x1000 + cp div 0x40 mod 0x40 * 0x40 + cp mod 0x40 = cp"
proof -
  have d: "cp div 0x1000 = cp div 0x40 div 0x40"
    using div_mult2_eq [of cp "0x40" "0x40"] by simp
  have a: "cp div 0x40 = cp div 0x1000 * 0x40 + cp div 0x40 mod 0x40"
    unfolding d using div_mult_mod_eq [of "cp div 0x40" "0x40"] by simp
  have e: "cp div 0x40 * 0x40 + cp mod 0x40 = cp" by simp
  show ?thesis
    using radix64_step [OF a e] by simp
qed

lemma radix64_four:
  "(cp::nat) div 0x40000 * 0x40000 + cp div 0x1000 mod 0x40 * 0x1000 +
     cp div 0x40 mod 0x40 * 0x40 + cp mod 0x40 = cp"
proof -
  have d: "cp div 0x40000 = cp div 0x1000 div 0x40"
    using div_mult2_eq [of cp "0x1000" "0x40"] by simp
  have a: "cp div 0x1000 = cp div 0x40000 * 0x40 + cp div 0x1000 mod 0x40"
    unfolding d using div_mult_mod_eq [of "cp div 0x1000" "0x40"] by simp
  have e: "cp div 0x1000 * 0x1000 + (cp div 0x40 mod 0x40 * 0x40 + cp mod 0x40) = cp"
    using radix64_three [of cp] by simp
  show ?thesis
    using radix64_step [OF a e] by simp
qed

lemma octet_bound: "0x80 + (x::nat) mod 0x40 < 256"
proof -
  have "x mod 0x40 < 0x40" by simp
  then show ?thesis by linarith
qed

lemma mod64_le: "(x::nat) mod 0x40 \<le> 0x3F"
proof -
  have "x mod 0x40 < 0x40" by simp
  then show ?thesis by linarith
qed

lemma percent_escaped: "percent \<notin> set unescapedSet"
  by code_simp

lemma unat_of_nat16: "n < 65536 \<Longrightarrow> unat (of_nat n :: 16 word) = n"
  by (simp add: unat_of_nat)

lemma unat16_less: "unat (c :: 16 word) < 65536"
  using unsigned_less [of c, where 'a = nat] by simp

subsection \<open>Decoding what Encode wrote\<close>

lemma Decode_escape_ascii:
  "b < 0x80 \<Longrightarrow> Decode (escape b @ e) = bind_append [of_nat b] (Decode e)"
  by (simp add: escape_def ParseHexOctet_escape leading_ones_def)

lemma continuation_octets_escapes:
  "\<forall>b \<in> set bs. b < 256 \<Longrightarrow>
   continuation_octets (length bs) (concat (map escape bs) @ e) = Some bs"
  by (induction bs) (simp_all add: escape_def ParseHexOctet_escape)

lemma length_escapes: "length (concat (map escape bs)) = 3 * length bs"
  by (induction bs) (simp_all add: escape_def)

lemma Decode_escape_multi:
  assumes "\<forall>b \<in> set (b0 # os). b < 256"
    and "leading_ones b0 = Suc (length os)" and "os \<noteq> []" and "length os \<le> 3"
    and "utf8_decode (b0 # os) = Some V"
  shows "Decode (concat (map escape (b0 # os)) @ e) =
           bind_append (UTF16EncodeCodePoint V) (Decode e)"
proof -
  have b0: "b0 < 256" and os: "\<forall>b \<in> set os. b < 256" using assms(1) by simp_all
  have n1: "Suc (length os) \<noteq> Suc 0" and n4: "\<not> 4 < Suc (length os)"
    using assms(3,4) by simp_all
  have c: "continuation_octets (length os) (concat (map escape os) @ e) = Some os"
    by (rule continuation_octets_escapes [OF os])
  have d: "drop (3 * length os) (concat (map escape os) @ e) = e"
    by (simp add: length_escapes)
  have "concat (map escape (b0 # os)) @ e =
        percent # hex_digit (b0 div 16) # hex_digit (b0 mod 16) # (concat (map escape os) @ e)"
    by (simp add: escape_def)
  then show ?thesis
    using n1 n4
    by (simp add: ParseHexOctet_escape [OF b0] assms(2) c length_escapes assms(5)
          del: utf8_decode.simps)
qed

lemma utf8_two:
  assumes "0x80 \<le> cp" and "cp < 0x800"
  shows "utf8 cp = [0xC0 + cp div 0x40, 0x80 + cp mod 0x40]"
    and "leading_ones (0xC0 + cp div 0x40) = 2"
    and "utf8_decode [0xC0 + cp div 0x40, 0x80 + cp mod 0x40] = Some cp"
    and "0xC0 + cp div 0x40 < 256" and "0x80 + cp mod 0x40 < 256"
proof -
  have q: "cp div 0x40 < 0x20" using assms by simp
  show "utf8 cp = [0xC0 + cp div 0x40, 0x80 + cp mod 0x40]"
    using assms by (simp add: utf8_def)
  show "leading_ones (0xC0 + cp div 0x40) = 2"
    using q by (simp add: leading_ones_def)
  show "utf8_decode [0xC0 + cp div 0x40, 0x80 + cp mod 0x40] = Some cp"
    using assms by (simp add: continuation_def)
  show "0xC0 + cp div 0x40 < 256" using q by simp
  show "0x80 + cp mod 0x40 < 256" by simp
qed

lemma utf8_three:
  assumes "0x800 \<le> cp" and "cp < 0x10000" and "\<not> (0xD800 \<le> cp \<and> cp \<le> 0xDFFF)"
  shows "utf8 cp = [0xE0 + cp div 0x1000, 0x80 + cp div 0x40 mod 0x40, 0x80 + cp mod 0x40]"
    and "leading_ones (0xE0 + cp div 0x1000) = 3"
    and "utf8_decode [0xE0 + cp div 0x1000, 0x80 + cp div 0x40 mod 0x40, 0x80 + cp mod 0x40] =
           Some cp"
    and "0xE0 + cp div 0x1000 < 256"
proof -
  have q: "cp div 0x1000 < 0x10" using assms by simp
  have v: "cp div 0x1000 * 0x1000 + cp div 0x40 mod 0x40 * 0x40 + cp mod 0x40 = cp"
    by (rule radix64_three)
  show "utf8 cp = [0xE0 + cp div 0x1000, 0x80 + cp div 0x40 mod 0x40, 0x80 + cp mod 0x40]"
    using assms by (simp add: utf8_def)
  show "leading_ones (0xE0 + cp div 0x1000) = 3"
    using q by (simp add: leading_ones_def)
  show "utf8_decode [0xE0 + cp div 0x1000, 0x80 + cp div 0x40 mod 0x40, 0x80 + cp mod 0x40] =
           Some cp"
    using assms by (simp add: continuation_def v mod64_le)
  show "0xE0 + cp div 0x1000 < 256" using q by simp
qed

lemma utf8_four:
  assumes "0x10000 \<le> cp" and "cp < 0x110000"
  shows "utf8 cp = [0xF0 + cp div 0x40000, 0x80 + cp div 0x1000 mod 0x40,
            0x80 + cp div 0x40 mod 0x40, 0x80 + cp mod 0x40]"
    and "leading_ones (0xF0 + cp div 0x40000) = 4"
    and "utf8_decode [0xF0 + cp div 0x40000, 0x80 + cp div 0x1000 mod 0x40,
            0x80 + cp div 0x40 mod 0x40, 0x80 + cp mod 0x40] = Some cp"
    and "0xF0 + cp div 0x40000 < 256"
proof -
  have q: "cp div 0x40000 < 5" using assms by simp
  have v: "cp div 0x40000 * 0x40000 + cp div 0x1000 mod 0x40 * 0x1000 +
           cp div 0x40 mod 0x40 * 0x40 + cp mod 0x40 = cp"
    by (rule radix64_four)
  show "utf8 cp = [0xF0 + cp div 0x40000, 0x80 + cp div 0x1000 mod 0x40,
            0x80 + cp div 0x40 mod 0x40, 0x80 + cp mod 0x40]"
    using assms by (simp add: utf8_def)
  show "leading_ones (0xF0 + cp div 0x40000) = 4"
    using q by (simp add: leading_ones_def)
  show "utf8_decode [0xF0 + cp div 0x40000, 0x80 + cp div 0x1000 mod 0x40,
            0x80 + cp div 0x40 mod 0x40, 0x80 + cp mod 0x40] = Some cp"
    using assms by (simp add: continuation_def v mod64_le)
  show "0xF0 + cp div 0x40000 < 256" using q by simp
qed

lemma Decode_utf8:
  assumes "scalar cp"
  shows "Decode (concat (map escape (utf8 cp)) @ e) =
           bind_append (UTF16EncodeCodePoint cp) (Decode e)"
proof -
  consider "cp < 0x80" | "0x80 \<le> cp" "cp < 0x800" | "0x800 \<le> cp" "cp < 0x10000"
    | "0x10000 \<le> cp"
    by linarith
  then show ?thesis
  proof cases
    case 1
    then have "utf8 cp = [cp]" by (simp add: utf8_def)
    moreover have "UTF16EncodeCodePoint cp = [of_nat cp]"
      using 1 by (simp add: UTF16EncodeCodePoint_def)
    ultimately show ?thesis
      using Decode_escape_ascii [OF 1, of e] by simp
  next
    case 2
    note u = utf8_two [OF 2]
    show ?thesis
      unfolding u(1)
      by (rule Decode_escape_multi) (simp_all add: u octet_bound del: utf8_decode.simps)
  next
    case 3
    with assms have ns: "\<not> (0xD800 \<le> cp \<and> cp \<le> 0xDFFF)" by (simp add: scalar_def)
    note u = utf8_three [OF 3 ns]
    show ?thesis
      unfolding u(1)
      by (rule Decode_escape_multi) (simp_all add: u octet_bound del: utf8_decode.simps)
  next
    case 4
    with assms have lt: "cp < 0x110000" by (simp add: scalar_def)
    note u = utf8_four [OF 4 lt]
    show ?thesis
      unfolding u(1)
      by (rule Decode_escape_multi) (simp_all add: u octet_bound del: utf8_decode.simps)
  qed
qed

lemma word16_of_unat: "(of_nat (unat c) :: 16 word) = c"
  by simp

lemma UTF16_single:
  assumes "\<not> is_leading_surrogate c" and "\<not> is_trailing_surrogate c"
  shows "scalar (unat c)" and "UTF16EncodeCodePoint (unat c) = [c]"
proof -
  have lt: "unat c < 65536" by (rule unat16_less)
  show "scalar (unat c)"
    using assms lt by (auto simp: scalar_def is_leading_surrogate_def is_trailing_surrogate_def)
  show "UTF16EncodeCodePoint (unat c) = [c]"
    using lt by (simp add: UTF16EncodeCodePoint_def)
qed

lemma UTF16_pair:
  assumes "is_leading_surrogate c" and "is_trailing_surrogate d"
  shows "scalar (UTF16SurrogatePairToCodePoint c d)"
    and "UTF16EncodeCodePoint (UTF16SurrogatePairToCodePoint c d) = [c, d]"
proof -
  define x where "x = unat c - 0xD800"
  define y where "y = unat d - 0xDC00"
  have x: "x < 0x400" and cx: "unat c = x + 0xD800"
    using assms(1) by (auto simp: x_def is_leading_surrogate_def)
  have y: "y < 0x400" and dy: "unat d = y + 0xDC00"
    using assms(2) by (auto simp: y_def is_trailing_surrogate_def)
  have cp: "UTF16SurrogatePairToCodePoint c d = x * 0x400 + y + 0x10000"
    by (simp add: UTF16SurrogatePairToCodePoint_def x_def y_def)
  show "scalar (UTF16SurrogatePairToCodePoint c d)"
    using x y by (simp add: cp scalar_def)
  have dv: "(x * 0x400 + y) div 0x400 = x" using y by simp
  have md: "(x * 0x400 + y) mod 0x400 = y" using y by simp
  have c': "(of_nat (x + 0xD800) :: 16 word) = c"
    using word16_of_unat [of c] by (simp only: cx)
  have d': "(of_nat (y + 0xDC00) :: 16 word) = d"
    using word16_of_unat [of d] by (simp only: dy)
  have "UTF16EncodeCodePoint (x * 0x400 + y + 0x10000) =
          [of_nat (x + 0xD800), of_nat (y + 0xDC00)]"
    using y by (simp add: UTF16EncodeCodePoint_def dv del: of_nat_add)
  then show "UTF16EncodeCodePoint (UTF16SurrogatePairToCodePoint c d) = [c, d]"
    by (simp only: cp c' d')
qed

lemma CodePointAt_paired:
  assumes "CodePointAt (C # rest) = (cp, count, False)"
  shows "scalar cp \<and> UTF16EncodeCodePoint cp @ drop (count - 1) rest = C # rest"
proof (cases "\<not> is_leading_surrogate C \<and> \<not> is_trailing_surrogate C")
  case True
  then have "cp = unat C" and "count = 1" using assms by simp_all
  then show ?thesis using UTF16_single True by simp
next
  case False
  then have nt: "\<not> is_trailing_surrogate C" and ne: "rest \<noteq> []"
    and tr: "is_trailing_surrogate (hd rest)"
    using assms by (auto split: if_splits)
  then have ld: "is_leading_surrogate C" using False by simp
  have cp: "cp = UTF16SurrogatePairToCodePoint C (hd rest)" and count: "count = 2"
    using assms False nt ne tr by (auto split: if_splits)
  obtain D rest' where r: "rest = D # rest'" using ne by (cases rest) auto
  show ?thesis
    using UTF16_pair [OF ld tr] by (simp add: cp count r)
qed

lemma Encode_Decode: "Encode s = Inr e \<Longrightarrow> Decode e = Inr s"
proof (induction s arbitrary: e rule: Encode.induct)
  case 1
  then show ?case by simp
next
  case (2 C rest)
  show ?case
  proof (cases "C \<in> set unescapedSet")
    case True
    then obtain e' where e': "Encode rest = Inr e'" and e: "e = C # e'"
      using "2.prems" by (cases "Encode rest") auto
    have np: "C \<noteq> percent" using True percent_escaped by auto
    have "Decode e' = Inr rest" using "2.IH"(1) [OF True e'] .
    then show ?thesis using np by (simp add: e)
  next
    case False
    obtain cp count unpaired where cpa: "CodePointAt (C # rest) = (cp, count, unpaired)"
      by (cases "CodePointAt (C # rest)") auto
    have up: "\<not> unpaired"
      using "2.prems" False cpa by (auto simp del: CodePointAt.simps split: if_splits)
    then obtain e' where e': "Encode (drop (count - 1) rest) = Inr e'"
      and e: "e = concat (map escape (utf8 cp)) @ e'"
      using "2.prems" False cpa
      by (cases "Encode (drop (count - 1) rest)") (auto simp del: CodePointAt.simps)
    have ih: "Decode e' = Inr (drop (count - 1) rest)"
      using "2.IH"(2) [OF False cpa [symmetric] refl up e'] .
    have cpa': "CodePointAt (C # rest) = (cp, count, False)" using cpa up by simp
    note p = CodePointAt_paired [OF cpa']
    show ?thesis
      unfolding e using p by (simp add: Decode_utf8 ih del: Decode.simps)
  qed
qed

lemma unescaped_ascii: "\<forall>c \<in> set unescapedSet. unat c < 0x80"
  by code_simp

lemma unescaped_not_surrogate:
  assumes "c \<in> set unescapedSet"
  shows "\<not> is_leading_surrogate c" and "\<not> is_trailing_surrogate c"
  using unescaped_ascii assms
  by (auto simp: is_leading_surrogate_def is_trailing_surrogate_def)

lemma Encode_well_formed: "well_formed s \<Longrightarrow> \<exists>e. Encode s = Inr e"
proof (induction s rule: well_formed.induct)
  case 1
  then show ?case by simp
next
  case (2 c)
  then show ?case by (cases "c \<in> set unescapedSet") simp_all
next
  case (3 c d rest)
  show ?case
  proof (cases "is_leading_surrogate c")
    case True
    with "3.prems" have tr: "is_trailing_surrogate d" and wf: "well_formed rest" by simp_all
    from "3.IH"(1) [OF True wf] obtain e where e: "Encode rest = Inr e" by blast
    have nt: "\<not> is_trailing_surrogate c"
      using True by (simp add: is_leading_surrogate_def is_trailing_surrogate_def)
    have "c \<notin> set unescapedSet"
      using True unescaped_not_surrogate(1) by blast
    then show ?thesis using True tr nt e by simp
  next
    case False
    with "3.prems" have nt: "\<not> is_trailing_surrogate c" and wf: "well_formed (d # rest)"
      by simp_all
    from "3.IH"(2) [OF False wf] obtain e where e: "Encode (d # rest) = Inr e" by blast
    show ?thesis
      using False nt e by (cases "c \<in> set unescapedSet") simp_all
  qed
qed

lemma Encode_ill_formed: "\<not> well_formed s \<Longrightarrow> Encode s = Inl URIError"
proof (induction s rule: well_formed.induct)
  case 1
  then show ?case by simp
next
  case (2 c)
  then have "c \<notin> set unescapedSet"
    using unescaped_not_surrogate by auto
  then show ?case using 2 by auto
next
  case (3 c d rest)
  show ?case
  proof (cases "is_leading_surrogate c")
    case True
    have nu: "c \<notin> set unescapedSet"
      using True unescaped_not_surrogate(1) by blast
    have nt: "\<not> is_trailing_surrogate c"
      using True by (simp add: is_leading_surrogate_def is_trailing_surrogate_def)
    show ?thesis
    proof (cases "is_trailing_surrogate d")
      case tr: True
      with "3.prems" True have "\<not> well_formed rest" by simp
      from "3.IH"(1) [OF True this] show ?thesis using nu nt True tr by simp
    next
      case False
      then show ?thesis using nu nt True by simp
    qed
  next
    case False
    show ?thesis
    proof (cases "is_trailing_surrogate c")
      case True
      then have "c \<notin> set unescapedSet"
        using unescaped_not_surrogate(2) by blast
      then show ?thesis using True False by simp
    next
      case nt: False
      with "3.prems" False have "\<not> well_formed (d # rest)" by simp
      from "3.IH"(2) [OF False this] show ?thesis
        using False nt by (cases "c \<in> set unescapedSet") simp_all
    qed
  qed
qed

lemma unescaped_code_units:
  "unescapedSet =
    [0x41, 0x42, 0x43, 0x44, 0x45, 0x46, 0x47, 0x48, 0x49, 0x4A, 0x4B, 0x4C, 0x4D,
     0x4E, 0x4F, 0x50, 0x51, 0x52, 0x53, 0x54, 0x55, 0x56, 0x57, 0x58, 0x59, 0x5A,
     0x61, 0x62, 0x63, 0x64, 0x65, 0x66, 0x67, 0x68, 0x69, 0x6A, 0x6B, 0x6C, 0x6D,
     0x6E, 0x6F, 0x70, 0x71, 0x72, 0x73, 0x74, 0x75, 0x76, 0x77, 0x78, 0x79, 0x7A,
     0x30, 0x31, 0x32, 0x33, 0x34, 0x35, 0x36, 0x37, 0x38, 0x39, 0x5F,
     0x2D, 0x2E, 0x21, 0x7E, 0x2A, 0x27, 0x28, 0x29]"
  by (simp add: unescapedSet_def)

subsection \<open>The claim\<close>

text \<open>
  C9. Claimed: for every expression string, encoding and then decoding gives the string
  back. A JavaScript string may hold a surrogate code unit without its partner, and on
  such a string \<^verbatim>\<open>encodeURIComponent\<close> throws a URIError, so there is nothing to
  decode: here the string \<^verbatim>\<open>'a\uD800'\<close>.
\<close>

theorem C9_unpaired_surrogate_throws:
  "encodeURIComponent [0x61, 0xD800] = Inl URIError"
  by (simp add: encodeURIComponent_def unescapedSet_def is_leading_surrogate_def
      is_trailing_surrogate_def)

text \<open>
  C9, as amended. For every well-formed string (every surrogate paired), whatever other
  characters it holds, \<^verbatim>\<open>encodeURIComponent\<close> returns a string, and
  \<^verbatim>\<open>decodeURIComponent\<close> of that string returns the original. On every other
  string \<^verbatim>\<open>encodeURIComponent\<close> throws a URIError.
\<close>

theorem C9_round_trip_well_formed:
  "(well_formed s \<longrightarrow>
      (\<exists>e. encodeURIComponent s = Inr e \<and> decodeURIComponent e = Inr s)) \<and>
   (\<not> well_formed s \<longrightarrow> encodeURIComponent s = Inl URIError)"
proof (intro conjI impI)
  assume "well_formed s"
  then obtain e where e: "Encode s = Inr e"
    using Encode_well_formed by blast
  then have "Decode e = Inr s" by (rule Encode_Decode)
  with e show "\<exists>e. encodeURIComponent s = Inr e \<and> decodeURIComponent e = Inr s"
    by (simp add: encodeURIComponent_def decodeURIComponent_def)
next
  assume "\<not> well_formed s"
  then show "encodeURIComponent s = Inl URIError"
    by (simp add: encodeURIComponent_def Encode_ill_formed)
qed

text \<open>
  The expression \<^verbatim>\<open>a&b=c d\<close> followed by U+00E9 and U+1F600 is written as
  \<^verbatim>\<open>a%26b%3Dc%20d%C3%A9%F0%9F%98%80\<close> and read back unchanged.
\<close>

theorem C9_round_trip_well_formed_witness:
  "well_formed [0x61, 0x26, 0x62, 0x3D, 0x63, 0x20, 0x64, 0xE9, 0xD83D, 0xDE00] \<and>
   encodeURIComponent [0x61, 0x26, 0x62, 0x3D, 0x63, 0x20, 0x64, 0xE9, 0xD83D, 0xDE00] =
     Inr (map of_char ''a%26b%3Dc%20d%C3%A9%F0%9F%98%80'') \<and>
   decodeURIComponent (map of_char ''a%26b%3Dc%20d%C3%A9%F0%9F%98%80'') =
     Inr [0x61, 0x26, 0x62, 0x3D, 0x63, 0x20, 0x64, 0xE9, 0xD83D, 0xDE00] \<and>
   \<not> well_formed [0x61, 0xD800] \<and> encodeURIComponent [0x61, 0xD800] = Inl URIError"
proof -
  let ?s = "[0x61, 0x26, 0x62, 0x3D, 0x63, 0x20, 0x64, 0xE9, 0xD83D, 0xDE00] :: code_unit list"
  let ?e = "map of_char ''a%26b%3Dc%20d%C3%A9%F0%9F%98%80'' :: code_unit list"
  have wf: "well_formed ?s"
    by (simp add: is_leading_surrogate_def is_trailing_surrogate_def)
  have nwf: "\<not> well_formed [0x61, 0xD800]"
    by (simp add: is_leading_surrogate_def is_trailing_surrogate_def)
  have enc: "encodeURIComponent ?s = Inr ?e"
    by (simp add: encodeURIComponent_def unescaped_code_units is_leading_surrogate_def
        is_trailing_surrogate_def UTF16SurrogatePairToCodePoint_def utf8_def escape_def
        hex_digit_def percent_def)
  from C9_round_trip_well_formed [of ?s] wf
  obtain e where e: "encodeURIComponent ?s = Inr e" and d: "decodeURIComponent e = Inr ?s"
    by blast
  from e enc have "e = ?e" by (simp only: sum.inject)
  with d have dec: "decodeURIComponent ?e = Inr ?s" by (simp only:)
  from C9_round_trip_well_formed [of "[0x61, 0xD800]"] nwf
  have bad: "encodeURIComponent [0x61, 0xD800] = Inl URIError" by blast
  from wf enc dec nwf bad show ?thesis by (intro conjI)
qed

end
